theory Spec2Isabelle
  imports Main "HOL-Library.Word" "HOL-Library.Signed_Division" "HOL-Library.Multiset"
begin

unbundle bit_operations_syntax

section \<open>Wildcard matcher (pkg/filter/wildcard.go)\<close>

text \<open>
  Go strings are byte sequences; \<open>strings.HasPrefix\<close> and \<open>strings.HasSuffix\<close> compare
  the leading and the trailing bytes, after checking the lengths.
\<close>

definition HasPrefix :: "string \<Rightarrow> string \<Rightarrow> bool" where
  "HasPrefix s p = (length p \<le> length s \<and> take (length p) s = p)"

definition HasSuffix :: "string \<Rightarrow> string \<Rightarrow> bool" where
  "HasSuffix s suf = (length suf \<le> length s \<and> drop (length s - length suf) s = suf)"

definition MatchWildcard :: "string \<Rightarrow> string \<Rightarrow> bool" where
  "MatchWildcard pattern domain =
     (if pattern = domain then True
      else if \<not> HasPrefix pattern ''*.'' then False
      else (let suffix = drop 2 pattern in
        if \<not> HasSuffix domain suffix then False
        else if length domain = length suffix then True
        else (let beforeSuffix = take (length domain - length suffix) domain
              in HasSuffix beforeSuffix ''.'')))"

lemma HasPrefix_iff: "HasPrefix s p \<longleftrightarrow> (\<exists>t. s = p @ t)"
proof
  assume "HasPrefix s p"
  then have "s = p @ drop (length p) s"
    unfolding HasPrefix_def by (metis append_take_drop_id)
  then show "\<exists>t. s = p @ t" ..
next
  assume "\<exists>t. s = p @ t"
  then show "HasPrefix s p" unfolding HasPrefix_def by auto
qed

lemma HasSuffix_iff: "HasSuffix s suf \<longleftrightarrow> (\<exists>t. s = t @ suf)"
proof
  assume "HasSuffix s suf"
  then have "s = take (length s - length suf) s @ suf"
    unfolding HasSuffix_def by (metis append_take_drop_id)
  then show "\<exists>t. s = t @ suf" ..
next
  assume "\<exists>t. s = t @ suf"
  then show "HasSuffix s suf" unfolding HasSuffix_def by auto
qed

lemma MatchWildcard_unfold:
  "MatchWildcard p d \<longleftrightarrow>
     (p = d \<or> (HasPrefix p ''*.'' \<and> HasSuffix d (drop 2 p) \<and>
        (length d = length (drop 2 p) \<or>
         HasSuffix (take (length d - length (drop 2 p)) d) ''.'')))"
  unfolding MatchWildcard_def Let_def by (cases "p = d") simp_all

lemma dotted_tail:
  "(HasSuffix d s \<and> (length d = length s \<or> HasSuffix (take (length d - length s) d) ''.''))
     \<longleftrightarrow> (d = s \<or> (\<exists>x. d = x @ ''.'' @ s))"
proof
  assume l: "HasSuffix d s \<and> (length d = length s \<or> HasSuffix (take (length d - length s) d) ''.'')"
  then obtain t where d: "d = t @ s" unfolding HasSuffix_iff by blast
  from l have "length d = length s \<or> HasSuffix (take (length d - length s) d) ''.''" ..
  then show "d = s \<or> (\<exists>x. d = x @ ''.'' @ s)"
  proof
    assume "length d = length s"
    with d show ?thesis by simp
  next
    assume "HasSuffix (take (length d - length s) d) ''.''"
    with d have "HasSuffix t ''.''" by simp
    then obtain x where "t = x @ ''.''" unfolding HasSuffix_iff ..
    with d have "d = x @ ''.'' @ s" by simp
    then show ?thesis by blast
  qed
next
  assume "d = s \<or> (\<exists>x. d = x @ ''.'' @ s)"
  then show "HasSuffix d s \<and> (length d = length s \<or> HasSuffix (take (length d - length s) d) ''.'')"
  proof
    assume "d = s"
    then show ?thesis by (simp add: HasSuffix_def)
  next
    assume "\<exists>x. d = x @ ''.'' @ s"
    then obtain x where d: "d = x @ ''.'' @ s" ..
    have "HasSuffix d s" unfolding HasSuffix_iff d by (rule exI [of _ "x @ ''.''"]) simp
    moreover have "take (length d - length s) d = x @ ''.''" unfolding d by simp
    then have "HasSuffix (take (length d - length s) d) ''.''"
      unfolding HasSuffix_iff by blast
    ultimately show ?thesis by blast
  qed
qed

text \<open>
  Claim C8. \<open>MatchWildcard p d\<close> holds exactly when \<open>p = d\<close>, or \<open>p\<close> is \<open>*.\<close> followed by a
  suffix \<open>s\<close> and \<open>d\<close> is \<open>s\<close> itself or ends with a dot followed by \<open>s\<close>. In particular
  \<open>fooexample.com\<close> does not match \<open>*.example.com\<close>, and a pattern that does not start with
  \<open>*.\<close> matches only the domain equal to it.
\<close>

theorem MatchWildcard_spec:
  "(MatchWildcard p d \<longleftrightarrow>
      (p = d \<or> (\<exists>s. p = ''*.'' @ s \<and> (d = s \<or> (\<exists>x. d = x @ ''.'' @ s)))))
   \<and> \<not> MatchWildcard ''*.example.com'' ''fooexample.com''
   \<and> (\<not> HasPrefix p ''*.'' \<longrightarrow> (MatchWildcard p d \<longleftrightarrow> p = d))"
proof (intro conjI impI)
  show "MatchWildcard p d \<longleftrightarrow>
      (p = d \<or> (\<exists>s. p = ''*.'' @ s \<and> (d = s \<or> (\<exists>x. d = x @ ''.'' @ s))))"
  proof (cases "HasPrefix p ''*.''")
    case True
    then obtain s where p: "p = ''*.'' @ s" unfolding HasPrefix_iff ..
    then have s: "drop 2 p = s" by simp
    have "MatchWildcard p d \<longleftrightarrow> (p = d \<or> d = s \<or> (\<exists>x. d = x @ ''.'' @ s))"
      unfolding MatchWildcard_unfold s dotted_tail using True by blast
    moreover have "(\<exists>s'. p = ''*.'' @ s' \<and> (d = s' \<or> (\<exists>x. d = x @ ''.'' @ s')))
        \<longleftrightarrow> (d = s \<or> (\<exists>x. d = x @ ''.'' @ s))" unfolding p by simp
    ultimately show ?thesis by blast
  next
    case False
    then have "\<not> (\<exists>s. p = ''*.'' @ s)" unfolding HasPrefix_iff .
    with False show ?thesis unfolding MatchWildcard_unfold by blast
  qed
  show "\<not> MatchWildcard ''*.example.com'' ''fooexample.com''"
    by (simp add: MatchWildcard_def HasPrefix_def HasSuffix_def)
  show "MatchWildcard p d \<longleftrightarrow> p = d" if "\<not> HasPrefix p ''*.''"
    using that unfolding MatchWildcard_unfold by blast
qed

theorem MatchWildcard_spec_witness:
  "\<not> HasPrefix ''github.com'' ''*.''
   \<and> \<not> MatchWildcard ''github.com'' ''api.github.com''
   \<and> MatchWildcard ''*.example.com'' ''test.api.example.com''
   \<and> MatchWildcard ''*.example.com'' ''example.com''"
proof -
  note spec = MatchWildcard_spec
  have h: "\<not> HasPrefix ''github.com'' ''*.''" by (simp add: HasPrefix_def)
  have "MatchWildcard ''github.com'' ''api.github.com'' \<longleftrightarrow> ''github.com'' = ''api.github.com''"
    using spec [of "''github.com''" "''api.github.com''", THEN conjunct2, THEN conjunct2] h
    by (rule mp)
  then have a: "\<not> MatchWildcard ''github.com'' ''api.github.com''" by simp
  have "''*.example.com'' = ''*.'' @ ''example.com'' \<and>
      (''test.api.example.com'' = ''example.com'' \<or>
       (\<exists>x. ''test.api.example.com'' = x @ ''.'' @ ''example.com''))"
    by (intro conjI disjI2 exI [of _ "''test.api''"]) simp_all
  then have b: "MatchWildcard ''*.example.com'' ''test.api.example.com''"
    by (intro spec [THEN conjunct1, THEN iffD2] disjI2 exI [of _ "''example.com''"])
  have "''*.example.com'' = ''*.'' @ ''example.com'' \<and>
      (''example.com'' = ''example.com'' \<or> (\<exists>x. ''example.com'' = x @ ''.'' @ ''example.com''))"
    by simp
  then have c: "MatchWildcard ''*.example.com'' ''example.com''"
    by (intro spec [THEN conjunct1, THEN iffD2] disjI2 exI [of _ "''example.com''"])
  from h a b c show ?thesis by (intro conjI)
qed

section \<open>Domain resolver and cache (pkg/dns/resolver.go)\<close>

text \<open>
  Instants are nanoseconds on the wall clock; \<open>dnsCacheTTL\<close> is \<open>5 * time.Minute\<close>.
\<close>

definition dnsCacheTTL :: int where
  "dnsCacheTTL = 5 * 60 * 1000000000"

record cacheEntry =
  ips :: "string list"
  expiresAt :: int

text \<open>
  A resource record of a DNS answer: an A record with the text of its address
  (\<open>a.A.String()\<close>), or a record of any other type.
\<close>

datatype rr = A string | OtherRR

text \<open>
  What the outside world answers during one call: \<open>exchange server domain\<close> is the reply
  of an upstream resolver to the A question for \<open>domain\<close> (\<open>None\<close> when
  \<open>client.Exchange\<close> returns an error), \<open>lookupHost\<close> is \<open>net.LookupHost\<close>, \<open>now\<close> is what
  \<open>time.Now()\<close> reads when the cache is checked and \<open>now_after_lookup\<close> what it reads when
  the result is stored.
\<close>

record env =
  exchange :: "string \<Rightarrow> string \<Rightarrow> rr list option"
  lookupHost :: "string \<Rightarrow> string list option"
  now :: int
  now_after_lookup :: int

datatype query = Exchange string string | LookupHost string

fun query_domain :: "query \<Rightarrow> string" where
  "query_domain (Exchange server domain) = domain"
| "query_domain (LookupHost domain) = domain"

text \<open>
  The resolver's state. \<open>queries\<close> is not a field of the Go struct: it records, oldest
  first, the upstream queries the code has sent, which in Go are side effects on the network.
\<close>

record Resolver =
  cache :: "string \<rightharpoonup> cacheEntry"
  servers :: "string list"
  queries :: "query list"

datatype dns_error = WildcardUnsupported | ResolveFailed | NoIPsFound

definition NewResolver :: Resolver where
  "NewResolver = \<lparr>cache = Map.empty, servers = [''8.8.8.8:53'', ''1.1.1.1:53''], queries = []\<rparr>"

fun a_records :: "rr list \<Rightarrow> string list" where
  "a_records [] = []"
| "a_records (A a # answer) = a # a_records answer"
| "a_records (OtherRR # answer) = a_records answer"

text \<open>The loop of \<open>lookup\<close> over \<open>r.servers\<close>; it returns \<open>allIPs\<close> and the queries sent.\<close>

fun query_servers :: "env \<Rightarrow> string \<Rightarrow> string list \<Rightarrow> string list \<Rightarrow> string list \<times> query list" where
  "query_servers e domain [] allIPs = (allIPs, [])"
| "query_servers e domain (server # rest) allIPs =
     (case exchange e server domain of
        None \<Rightarrow>
          (let (res, qs) = query_servers e domain rest allIPs
           in (res, Exchange server domain # qs))
      | Some answer \<Rightarrow>
          (let allIPs' = allIPs @ a_records answer in
           if length allIPs' > 0 then (allIPs', [Exchange server domain])
           else (let (res, qs) = query_servers e domain rest allIPs'
                 in (res, Exchange server domain # qs))))"

definition lookup :: "env \<Rightarrow> string \<Rightarrow> Resolver \<Rightarrow> (dns_error + string list) \<times> Resolver" where
  "lookup e domain r =
     (let (allIPs, qs) = query_servers e domain (servers r) [];
          r1 = r\<lparr>queries := queries r @ qs\<rparr>
      in if length allIPs = 0 then
           (let r2 = r1\<lparr>queries := queries r1 @ [LookupHost domain]\<rparr> in
            case lookupHost e domain of
              None \<Rightarrow> (Inl ResolveFailed, r2)
            | Some addrs \<Rightarrow>
                if length addrs = 0 then (Inl NoIPsFound, r2) else (Inr addrs, r2))
         else (Inr allIPs, r1))"

text \<open>The guard \<open>ok && time.Now().Before(entry.expiresAt)\<close> of the cache check.\<close>

definition cache_hit :: "env \<Rightarrow> string \<Rightarrow> Resolver \<Rightarrow> cacheEntry option" where
  "cache_hit e domain r =
     (case cache r domain of
        None \<Rightarrow> None
      | Some entry \<Rightarrow> if now e < expiresAt entry then Some entry else None)"

definition Resolve :: "env \<Rightarrow> string \<Rightarrow> Resolver \<Rightarrow> (dns_error + string list) \<times> Resolver" where
  "Resolve e domain r =
     (case cache_hit e domain r of
        Some entry \<Rightarrow> (Inr (ips entry), r)
      | None \<Rightarrow>
          if HasPrefix domain ''*.'' then (Inl WildcardUnsupported, r)
          else (case lookup e domain r of
                  (Inl err, r') \<Rightarrow> (Inl err, r')
                | (Inr found, r') \<Rightarrow>
                    (Inr found,
                     r'\<lparr>cache := (cache r')(domain \<mapsto>
                        \<lparr>ips = found, expiresAt = now_after_lookup e + dnsCacheTTL\<rparr>)\<rparr>)))"

text \<open>
  \<open>refreshCache\<close> walks a snapshot of the cache keys. Go leaves the iteration order of a map
  open, so the snapshot \<open>domains\<close> is an argument. The second component lists the
  \<open>callback(domain, ips)\<close> calls in the order they are made.
\<close>

fun refreshCache :: "env \<Rightarrow> string list \<Rightarrow> Resolver \<Rightarrow> Resolver \<times> (string \<times> string list) list" where
  "refreshCache e [] r = (r, [])"
| "refreshCache e (domain # domains) r =
     (case lookup e domain r of
        (Inl err, r') \<Rightarrow> refreshCache e domains r'
      | (Inr found, r') \<Rightarrow>
          (let r'' = r'\<lparr>cache := (cache r')(domain \<mapsto>
                       \<lparr>ips = found, expiresAt = now_after_lookup e + dnsCacheTTL\<rparr>)\<rparr>;
               (rf, calls) = refreshCache e domains r''
           in (rf, (domain, found) # calls)))"

text \<open>The resolver states the program can be in: it starts from \<open>NewResolver\<close>.\<close>

inductive reachable :: "Resolver \<Rightarrow> bool" where
  init: "reachable NewResolver"
| resolve: "reachable r \<Longrightarrow> reachable (snd (Resolve e domain r))"
| refresh: "reachable r \<Longrightarrow> set domains \<subseteq> dom (cache r) \<Longrightarrow>
            reachable (fst (refreshCache e domains r))"

lemma query_servers_domain:
  "list_all (\<lambda>q. query_domain q = domain) (snd (query_servers e domain srv acc))"
  by (induction srv arbitrary: acc) (auto split: option.splits simp: Let_def split_beta)

lemma query_servers_nonempty:
  "srv \<noteq> [] \<Longrightarrow> snd (query_servers e domain srv acc) \<noteq> []"
  by (cases srv) (auto split: option.splits simp: Let_def split_beta)

lemma lookup_cache: "cache (snd (lookup e domain r)) = cache r"
  by (auto simp: lookup_def Let_def split: prod.splits option.splits)

lemma lookup_queries:
  "\<exists>qs. qs \<noteq> [] \<and> queries (snd (lookup e domain r)) = queries r @ qs
        \<and> list_all (\<lambda>q. query_domain q = domain) qs"
proof -
  obtain allIPs qs where q: "query_servers e domain (servers r) [] = (allIPs, qs)"
    by (cases "query_servers e domain (servers r) []")
  have dom: "list_all (\<lambda>q. query_domain q = domain) qs"
    using query_servers_domain [of domain e "servers r" "[]"] q by simp
  show ?thesis
  proof (cases "allIPs = []")
    case True
    then have "queries (snd (lookup e domain r)) = queries r @ (qs @ [LookupHost domain])"
      using q by (auto simp: lookup_def Let_def split: option.splits)
    moreover have "list_all (\<lambda>q. query_domain q = domain) (qs @ [LookupHost domain])"
      using dom by simp
    ultimately show ?thesis by blast
  next
    case False
    then have "servers r \<noteq> []" using q by auto
    then have "qs \<noteq> []" using query_servers_nonempty [of "servers r" e domain "[]"] q by simp
    moreover have "queries (snd (lookup e domain r)) = queries r @ qs"
      using q False by (auto simp: lookup_def Let_def)
    ultimately show ?thesis using dom by blast
  qed
qed

lemma Resolve_keys:
  "dom (cache (snd (Resolve e domain r))) \<subseteq> dom (cache r) \<union> {d. d = domain \<and> \<not> HasPrefix d ''*.''}"
  using lookup_cache [of e domain r]
  by (auto simp: Resolve_def split: option.splits prod.splits sum.splits if_splits)

lemma refreshCache_keys:
  "dom (cache (fst (refreshCache e domains r))) \<subseteq> dom (cache r) \<union> set domains"
proof (induction domains arbitrary: r)
  case Nil
  then show ?case by simp
next
  case (Cons domain domains)
  obtain res r' where l: "lookup e domain r = (res, r')" by (cases "lookup e domain r")
  then have c: "cache r' = cache r" using lookup_cache [of e domain r] by simp
  show ?case
  proof (cases res)
    case (Inl err)
    then have "fst (refreshCache e (domain # domains) r) = fst (refreshCache e domains r')"
      using l by simp
    moreover have "dom (cache (fst (refreshCache e domains r'))) \<subseteq> dom (cache r) \<union> set domains"
      using Cons.IH [of r'] c by simp
    ultimately show ?thesis by auto
  next
    case (Inr found)
    let ?r'' = "r'\<lparr>cache := (cache r')(domain \<mapsto>
                  \<lparr>ips = found, expiresAt = now_after_lookup e + dnsCacheTTL\<rparr>)\<rparr>"
    have eq: "fst (refreshCache e (domain # domains) r) = fst (refreshCache e domains ?r'')"
      using l Inr by (simp add: Let_def split_beta)
    have d: "dom (cache ?r'') = insert domain (dom (cache r))" using c by simp
    have "dom (cache (fst (refreshCache e domains ?r''))) \<subseteq> dom (cache ?r'') \<union> set domains"
      by (rule Cons.IH)
    then have "dom (cache (fst (refreshCache e domains ?r'')))
        \<subseteq> dom (cache r) \<union> set (domain # domains)"
      unfolding d by auto
    then show ?thesis unfolding eq .
  qed
qed

lemma reachable_keys:
  "reachable r \<Longrightarrow> d \<in> dom (cache r) \<Longrightarrow> \<not> HasPrefix d ''*.''"
proof (induction arbitrary: d rule: reachable.induct)
  case init
  then show ?case by (simp add: NewResolver_def)
next
  case (resolve r e domain)
  then show ?case using Resolve_keys [of e domain r] by blast
next
  case (refresh r domains e)
  then show ?case using refreshCache_keys [of e domains r] by blast
qed

lemma Resolve_hit:
  "cache r domain = Some entry \<Longrightarrow> now e < expiresAt entry \<Longrightarrow>
     Resolve e domain r = (Inr (ips entry), r)"
  by (simp add: Resolve_def cache_hit_def)

lemma Resolve_miss:
  assumes "cache_hit e domain r = None" and "\<not> HasPrefix domain ''*.''"
  shows "(\<exists>qs. qs \<noteq> [] \<and> queries (snd (Resolve e domain r)) = queries r @ qs
              \<and> list_all (\<lambda>q. query_domain q = domain) qs)"
    and "fst (Resolve e domain r) = Inr addrs \<Longrightarrow>
           cache (snd (Resolve e domain r)) domain =
             Some \<lparr>ips = addrs, expiresAt = now_after_lookup e + dnsCacheTTL\<rparr>"
proof -
  obtain res r' where l: "lookup e domain r = (res, r')" by (cases "lookup e domain r")
  have q: "queries (snd (Resolve e domain r)) = queries r'"
    using assms l by (cases res) (simp_all add: Resolve_def)
  from lookup_queries [of e domain r] l q
  show "\<exists>qs. qs \<noteq> [] \<and> queries (snd (Resolve e domain r)) = queries r @ qs
              \<and> list_all (\<lambda>q. query_domain q = domain) qs" by simp
  show "cache (snd (Resolve e domain r)) domain =
             Some \<lparr>ips = addrs, expiresAt = now_after_lookup e + dnsCacheTTL\<rparr>"
    if "fst (Resolve e domain r) = Inr addrs"
    using that assms l by (cases res) (simp_all add: Resolve_def)
qed

text \<open>
  Claim C9. In a reachable resolver state with a cache entry for \<open>domain\<close>: while the clock
  is before the entry's expiry, \<open>Resolve\<close> returns the cached addresses and leaves the
  resolver as it was, so that no upstream query is sent; from the expiry on, \<open>Resolve\<close> sends at
  least one new query, all of them for \<open>domain\<close>, and a successful result is stored with the
  expiry \<open>dnsCacheTTL\<close> (5 minutes) after the time of storing.
\<close>

theorem Resolve_cache_ttl:
  assumes "reachable r" and "cache r domain = Some entry"
  shows "(now e < expiresAt entry \<longrightarrow> Resolve e domain r = (Inr (ips entry), r))
       \<and> (\<not> now e < expiresAt entry \<longrightarrow>
            (\<exists>qs. qs \<noteq> [] \<and> queries (snd (Resolve e domain r)) = queries r @ qs
                  \<and> list_all (\<lambda>q. query_domain q = domain) qs)
          \<and> (\<forall>addrs. fst (Resolve e domain r) = Inr addrs \<longrightarrow>
                cache (snd (Resolve e domain r)) domain =
                  Some \<lparr>ips = addrs, expiresAt = now_after_lookup e + dnsCacheTTL\<rparr>))
       \<and> dnsCacheTTL = 300000000000"
proof (intro conjI impI allI)
  show "Resolve e domain r = (Inr (ips entry), r)" if "now e < expiresAt entry"
    using assms(2) that by (rule Resolve_hit)
  have nw: "\<not> HasPrefix domain ''*.''"
    using assms reachable_keys [of r domain] by blast
  {
    assume "\<not> now e < expiresAt entry"
    then have miss: "cache_hit e domain r = None" using assms(2) by (simp add: cache_hit_def)
    from Resolve_miss(1) [OF miss nw]
    show "\<exists>qs. qs \<noteq> [] \<and> queries (snd (Resolve e domain r)) = queries r @ qs
              \<and> list_all (\<lambda>q. query_domain q = domain) qs" .
    fix addrs
    assume "fst (Resolve e domain r) = Inr addrs"
    with Resolve_miss(2) [OF miss nw]
    show "cache (snd (Resolve e domain r)) domain =
             Some \<lparr>ips = addrs, expiresAt = now_after_lookup e + dnsCacheTTL\<rparr>" .
  }
  show "dnsCacheTTL = 300000000000" by (simp add: dnsCacheTTL_def)
qed

text \<open>
  A concrete run: the first upstream resolver answers \<open>example.com\<close> with one A record; the
  entry stored at time 10 is served at time 20 and is replaced at its expiry.
\<close>

definition example_env :: "int \<Rightarrow> env" where
  "example_env t = \<lparr>exchange = (\<lambda>server domain. Some [OtherRR, A ''93.184.216.34'']),
                    lookupHost = (\<lambda>domain. None), now = t, now_after_lookup = t + 10\<rparr>"

definition example_resolver :: Resolver where
  "example_resolver = snd (Resolve (example_env 0) ''example.com'' NewResolver)"

lemma example_resolver_cache:
  "cache example_resolver ''example.com'' =
     Some \<lparr>ips = [''93.184.216.34''], expiresAt = 300000000010\<rparr>"
  by (simp add: example_resolver_def Resolve_def cache_hit_def NewResolver_def HasPrefix_def
      lookup_def example_env_def dnsCacheTTL_def)

lemma example_resolver_again:
  "fst (Resolve (example_env t) ''example.com'' example_resolver) = Inr [''93.184.216.34'']"
  by (simp add: example_resolver_def Resolve_def cache_hit_def NewResolver_def HasPrefix_def
      lookup_def example_env_def dnsCacheTTL_def)

theorem Resolve_cache_ttl_witness:
  "reachable example_resolver
   \<and> cache example_resolver ''example.com'' =
       Some \<lparr>ips = [''93.184.216.34''], expiresAt = 300000000010\<rparr>
   \<and> Resolve (example_env 20) ''example.com'' example_resolver
       = (Inr [''93.184.216.34''], example_resolver)
   \<and> cache (snd (Resolve (example_env 300000000010) ''example.com'' example_resolver))
        ''example.com'' = Some \<lparr>ips = [''93.184.216.34''], expiresAt = 600000000020\<rparr>"
proof -
  have r: "reachable example_resolver"
    unfolding example_resolver_def by (intro reachable.resolve reachable.init)
  note c = example_resolver_cache
  have hit: "Resolve (example_env 20) ''example.com'' example_resolver
       = (Inr [''93.184.216.34''], example_resolver)"
    using Resolve_cache_ttl [OF r c, of "example_env 20"] by (simp add: example_env_def)
  have "cache (snd (Resolve (example_env 300000000010) ''example.com'' example_resolver))
        ''example.com'' = Some \<lparr>ips = [''93.184.216.34''],
           expiresAt = now_after_lookup (example_env 300000000010) + dnsCacheTTL\<rparr>"
    using Resolve_cache_ttl [OF r c, of "example_env 300000000010"]
      example_resolver_again [of 300000000010]
    by (simp add: example_env_def)
  then have miss: "cache (snd (Resolve (example_env 300000000010) ''example.com'' example_resolver))
        ''example.com'' = Some \<lparr>ips = [''93.184.216.34''], expiresAt = 600000000020\<rparr>"
    by (simp add: example_env_def dnsCacheTTL_def)
  from r c hit miss show ?thesis by (intro conjI)
qed

section \<open>The kernel filtering interface (github.com/google/nftables, nf_tables)\<close>

text \<open>
  The packet filter compiler talks to the kernel through the \<open>nftables.Conn\<close> of the
  library the repository requires (v0.2.0). The library and the kernel are not code of the
  repository; this section states the part of their behaviour the compiler relies on.
  A connection buffers messages; \<open>Flush\<close> sends the buffer as one batch, which the kernel
  applies as a whole or not at all.
\<close>

type_synonym byte = "8 word"

datatype verdict_kind = VerdictAccept | VerdictDrop

datatype payload_base = PayloadBaseNetworkHeader | PayloadBaseTransportHeader

text \<open>
  The expressions the compiler emits. The first argument of a register expression is its
  register; \<open>Cmp\<close> and \<open>Range\<close> are always built with \<open>Op: CmpOpEq\<close>, \<open>Meta\<close> always with
  \<open>Key: MetaKeyL4PROTO\<close>. A \<open>Lookup\<close> names its set (the kernel resolves it by name).
\<close>

datatype expr =
    Meta nat
  | Cmp nat "byte list"
  | Payload nat payload_base nat nat
  | Lookup nat string
  | Range nat "byte list" "byte list"
  | Verdict verdict_kind
  | Masq

datatype chain_name = egress_filter | postrouting

text \<open>
  The kernel state under the table \<open>legion_filter\<close>: whether the table exists, the rules of
  its chains in evaluation order, and the members of its named sets.
\<close>

record kernel =
  k_table :: bool
  k_chains :: "chain_name \<rightharpoonup> expr list list"
  k_sets :: "string \<rightharpoonup> byte list set"

definition empty_kernel :: kernel where
  "empty_kernel = \<lparr>k_table = False, k_chains = Map.empty, k_sets = Map.empty\<rparr>"

datatype msg =
    NewTable
  | DelTable
  | NewChain chain_name
  | NewRule chain_name "expr list"
  | NewSet string
  | NewSetElems string "byte list list"

text \<open>
  One message applied by the kernel; \<open>None\<close> is a rejection. Creation messages are sent
  with \<open>NLM_F_CREATE\<close> and without \<open>NLM_F_EXCL\<close>, so creating an object that exists keeps
  it as it is; a rule message is sent with \<open>NLM_F_APPEND\<close> and goes to the end of its chain.
  The kernel refuses a set whose name is longer than 255 bytes (\<open>NFT_SET_MAXNAMELEN\<close> is
  256, the terminating zero included) and a rule of more than 128 expressions
  (\<open>NFT_RULE_MAXEXPRS\<close>).
\<close>

definition NFT_SET_MAXNAMELEN :: nat where
  "NFT_SET_MAXNAMELEN = 256"

definition NFT_RULE_MAXEXPRS :: nat where
  "NFT_RULE_MAXEXPRS = 128"

fun apply_msg :: "msg \<Rightarrow> kernel \<Rightarrow> kernel option" where
  "apply_msg NewTable k = Some (k\<lparr>k_table := True\<rparr>)"
| "apply_msg DelTable k =
     (if k_table k then Some empty_kernel else None)"
| "apply_msg (NewChain c) k =
     (if \<not> k_table k then None
      else case k_chains k c of
             None \<Rightarrow> Some (k\<lparr>k_chains := (k_chains k)(c \<mapsto> [])\<rparr>)
           | Some rules \<Rightarrow> Some k)"
| "apply_msg (NewRule c exprs) k =
     (if \<not> k_table k \<or> length exprs > NFT_RULE_MAXEXPRS then None
      else case k_chains k c of
             None \<Rightarrow> None
           | Some rules \<Rightarrow> Some (k\<lparr>k_chains := (k_chains k)(c \<mapsto> rules @ [exprs])\<rparr>))"
| "apply_msg (NewSet name) k =
     (if \<not> k_table k \<or> length name \<ge> NFT_SET_MAXNAMELEN then None
      else case k_sets k name of
             None \<Rightarrow> Some (k\<lparr>k_sets := (k_sets k)(name \<mapsto> {})\<rparr>)
           | Some elems \<Rightarrow> Some k)"
| "apply_msg (NewSetElems name keys) k =
     (case k_sets k name of
        None \<Rightarrow> None
      | Some elems \<Rightarrow> Some (k\<lparr>k_sets := (k_sets k)(name \<mapsto> elems \<union> set keys)\<rparr>))"

fun apply_batch :: "msg list \<Rightarrow> kernel \<Rightarrow> kernel option" where
  "apply_batch [] k = Some k"
| "apply_batch (m # ms) k =
     (case apply_msg m k of None \<Rightarrow> None | Some k' \<Rightarrow> apply_batch ms k')"

text \<open>
  A connection: the buffered messages, the kernel behind it, and \<open>flush_results\<close>, which
  says for each coming non-empty \<open>Flush\<close> whether the transport and the kernel are willing
  (\<open>False\<close>: the batch fails for an outside reason such as a netlink error or a lack of
  memory); when the list is used up every batch is taken on its merits.
\<close>

record Conn =
  messages :: "msg list"
  kern :: kernel
  flush_results :: "bool list"

definition send :: "msg \<Rightarrow> Conn \<Rightarrow> Conn" where
  "send m c = c\<lparr>messages := messages c @ [m]\<rparr>"

datatype nft_error = FlushFailed | NoIPSet | NilPointer

text \<open>
  \<open>Flush\<close> returns nil at once when nothing is buffered; else it sends the batch and
  empties the buffer whatever the outcome.
\<close>

definition Flush :: "Conn \<Rightarrow> (nft_error + unit) \<times> Conn" where
  "Flush c =
     (if messages c = [] then (Inr (), c)
      else (let willing = (case flush_results c of [] \<Rightarrow> True | b # bs \<Rightarrow> b);
                c' = c\<lparr>messages := [], flush_results := tl (flush_results c)\<rparr>
            in case (if willing then apply_batch (messages c) (kern c) else None) of
                 None \<Rightarrow> (Inl FlushFailed, c')
               | Some k' \<Rightarrow> (Inr (), c'\<lparr>kern := k'\<rparr>)))"

subsection \<open>How the kernel evaluates a chain\<close>

record packet =
  l4proto :: byte
  network_header :: "byte list"
  transport_header :: "byte list"

fun bytes_le :: "byte list \<Rightarrow> byte list \<Rightarrow> bool" where
  "bytes_le [] ys = True"
| "bytes_le (x # xs) [] = False"
| "bytes_le (x # xs) (y # ys) = (x < y \<or> (x = y \<and> bytes_le xs ys))"

definition header :: "packet \<Rightarrow> payload_base \<Rightarrow> byte list" where
  "header p base =
     (case base of PayloadBaseNetworkHeader \<Rightarrow> network_header p
                 | PayloadBaseTransportHeader \<Rightarrow> transport_header p)"

text \<open>
  The expressions of a rule run in order on the registers. A comparison, a range test or
  a set lookup that fails ends the rule without a verdict, as does a payload load beyond
  the header; \<open>None\<close> is "no verdict from this rule".
\<close>

fun eval_exprs :: "kernel \<Rightarrow> packet \<Rightarrow> (nat \<Rightarrow> byte list) \<Rightarrow> expr list \<Rightarrow> verdict_kind option" where
  "eval_exprs k p regs [] = None"
| "eval_exprs k p regs (Meta r # es) = eval_exprs k p (regs(r := [l4proto p])) es"
| "eval_exprs k p regs (Cmp r data # es) =
     (if take (length data) (regs r) = data then eval_exprs k p regs es else None)"
| "eval_exprs k p regs (Payload r base off len # es) =
     (if off + len \<le> length (header p base)
      then eval_exprs k p (regs(r := take len (drop off (header p base)))) es
      else None)"
| "eval_exprs k p regs (Lookup r name # es) =
     (case k_sets k name of
        None \<Rightarrow> None
      | Some elems \<Rightarrow> if regs r \<in> elems then eval_exprs k p regs es else None)"
| "eval_exprs k p regs (Range r from to # es) =
     (if bytes_le from (take (length from) (regs r)) \<and> bytes_le (take (length to) (regs r)) to
      then eval_exprs k p regs es else None)"
| "eval_exprs k p regs (Verdict v # es) = Some v"
| "eval_exprs k p regs (Masq # es) = eval_exprs k p regs es"

text \<open>
  The first rule that gives a verdict decides. The chains are created without a policy,
  and a base chain without one accepts what no rule decides.
\<close>

fun eval_chain :: "kernel \<Rightarrow> packet \<Rightarrow> expr list list \<Rightarrow> verdict_kind" where
  "eval_chain k p [] = VerdictAccept"
| "eval_chain k p (exprs # rules) =
     (case eval_exprs k p (\<lambda>r. []) exprs of
        Some v \<Rightarrow> v
      | None \<Rightarrow> eval_chain k p rules)"

section \<open>Packet filter compiler (package nftables)\<close>

text \<open>
  Functions of the Go standard library the compiler calls, taken as parameters.
  \<open>ParseCIDR s\<close> is \<open>None\<close> when \<open>net.ParseCIDR\<close> returns an error, else \<open>Some\<close> of
  \<open>ipNet.IP.To4()\<close> (\<open>None\<close> for nil, else the four bytes of the network address);
  \<open>ParseIP s\<close> is \<open>net.ParseIP(s).To4()\<close>; \<open>Sscanf_port s\<close> is the \<open>uint16\<close> read by
  \<open>fmt.Sscanf(s, "%d", &port)\<close> and \<open>Sscanf_range s\<close> the pair read by
  \<open>fmt.Sscanf(s, "%d-%d", &startPort, &endPort)\<close>, \<open>None\<close> when they return an error.
\<close>

record golib =
  ParseCIDR :: "string \<Rightarrow> byte list option option"
  ParseIP :: "string \<Rightarrow> byte list option"
  Sscanf_port :: "string \<Rightarrow> 16 word option"
  Sscanf_range :: "string \<Rightarrow> (16 word \<times> 16 word) option"

text \<open>
  A rule name is kept as the sequence of its runes (code points), which is what a Go
  \<open>range\<close> over the string yields; the YAML and JSON decoders deliver valid UTF-8, for which
  the runes determine the string. \<open>ascii\<close> gives the runes of an ASCII string.
\<close>

type_synonym rune = nat

definition ascii :: "string \<Rightarrow> rune list" where
  "ascii s = map of_char s"

record Rule =
  Name :: "rune list"
  Action :: string
  Priority :: int
  IPs :: "string list"
  Ports :: "string list"
  Protocols :: "string list"

text \<open>
  The manager: its connection, whether \<open>m.table\<close> and \<open>m.chain\<close> are set (non-nil), and
  \<open>sets\<close>, from rule names to the address set of the rule, a set being known by its name.
\<close>

record Manager =
  conn :: Conn
  table :: bool
  chain :: bool
  sets :: "rune list \<rightharpoonup> string"

definition NewManager :: "kernel \<Rightarrow> bool list \<Rightarrow> Manager" where
  "NewManager k outcomes =
     \<lparr>conn = \<lparr>messages = [], kern = k, flush_results = outcomes\<rparr>,
      table = False, chain = False, sets = Map.empty\<rparr>"

definition Setup :: "Manager \<Rightarrow> (nft_error + unit) \<times> Manager" where
  "Setup m =
     (let c1 = send NewTable (conn m);
          c2 = send (NewChain egress_filter) c1;
          c3 = send (NewChain postrouting) c2;
          c4 = send (NewRule postrouting [Masq]) c3;
          c5 = send (NewRule egress_filter [Verdict VerdictDrop]) c4;
          (res, c6) = Flush c5
      in (res, m\<lparr>conn := c6, table := True, chain := True\<rparr>))"

definition Cleanup :: "Manager \<Rightarrow> (nft_error + unit) \<times> Manager" where
  "Cleanup m =
     (let c1 = (if table m then send DelTable (conn m) else conn m);
          (res, c2) = Flush c1
      in (res, m\<lparr>conn := c2\<rparr>))"

definition is_name_rune :: "rune \<Rightarrow> bool" where
  "is_name_rune c =
     ((of_char CHR ''a'' \<le> c \<and> c \<le> of_char CHR ''z'')
      \<or> (of_char CHR ''A'' \<le> c \<and> c \<le> of_char CHR ''Z'')
      \<or> (of_char CHR ''0'' \<le> c \<and> c \<le> of_char CHR ''9'')
      \<or> c = of_char CHR ''_'')"

definition sanitizeName :: "rune list \<Rightarrow> string" where
  "sanitizeName name =
     foldl (\<lambda>result c. if is_name_rune c then result @ [char_of c] else result @ ''_'')
       [] name"

definition protocolToNum :: "string \<Rightarrow> byte" where
  "protocolToNum proto =
     (if proto = ''tcp'' then 6
      else if proto = ''udp'' then 17
      else if proto = ''icmp'' then 1
      else 0)"

text \<open>\<open>strings.Index\<close> for a one-byte separator: the first position, or \<open>-1\<close>.\<close>

definition Index :: "string \<Rightarrow> char \<Rightarrow> int" where
  "Index s c = (if c \<in> set s then int (length (takeWhile (\<lambda>x. x \<noteq> c) s)) else - 1)"

datatype port_error = InvalidPortRange | StartAfterEnd | InvalidPort

definition port_bytes :: "16 word \<Rightarrow> byte list" where
  "port_bytes port = [ucast (drop_bit 8 port), ucast (port AND 0xff)]"

definition buildPortExpression :: "golib \<Rightarrow> string \<Rightarrow> port_error + expr list" where
  "buildPortExpression L portStr =
     (if Index portStr CHR ''-'' > 0 then
        (case Sscanf_range L portStr of
           None \<Rightarrow> Inl InvalidPortRange
         | Some (startPort, endPort) \<Rightarrow>
             if startPort > endPort then Inl StartAfterEnd
             else Inr [Payload 1 PayloadBaseTransportHeader 2 2,
                       Range 1 (port_bytes startPort) (port_bytes endPort)])
      else
        (case Sscanf_port L portStr of
           None \<Rightarrow> Inl InvalidPort
         | Some port \<Rightarrow>
             Inr [Payload 1 PayloadBaseTransportHeader 2 2, Cmp 1 (port_bytes port)]))"

text \<open>
  \<open>buildRuleExpressions\<close>; its error result is always nil, so the model returns the list.
  \<open>ipSet\<close> is the name of the rule's address set, \<open>None\<close> for a nil set.
\<close>

definition buildRuleExpressions :: "golib \<Rightarrow> Rule \<Rightarrow> string option \<Rightarrow> expr list" where
  "buildRuleExpressions L rule ipSet =
     (let exprs1 = foldl (\<lambda>exprs proto. exprs @ [Meta 1, Cmp 1 [protocolToNum proto]])
                     [] (Protocols rule);
          exprs2 = (case ipSet of
                      None \<Rightarrow> exprs1
                    | Some setName \<Rightarrow>
                        exprs1 @ [Payload 1 PayloadBaseNetworkHeader 16 4, Lookup 1 setName]);
          exprs3 = foldl (\<lambda>exprs portStr.
                       case buildPortExpression L portStr of
                         Inl err \<Rightarrow> exprs
                       | Inr portExprs \<Rightarrow> exprs @ portExprs)
                     exprs2 (Ports rule)
      in if Action rule = ''allow'' then exprs3 @ [Verdict VerdictAccept]
         else exprs3 @ [Verdict VerdictDrop])"

text \<open>
  \<open>addIPsToSet\<close>. \<open>SetAddElements\<close> only buffers a message and cannot fail for a named
  set, so the loop always runs to its end.
\<close>

fun addIPsToSet :: "golib \<Rightarrow> string \<Rightarrow> string list \<Rightarrow> Conn \<Rightarrow> Conn" where
  "addIPsToSet L setName [] c = c"
| "addIPsToSet L setName (ipStr # rest) c =
     (case ParseCIDR L ipStr of
        Some ipNet \<Rightarrow>
          (case ipNet of
             Some ip \<Rightarrow> addIPsToSet L setName rest (send (NewSetElems setName [ip]) c)
           | None \<Rightarrow> addIPsToSet L setName rest c)
      | None \<Rightarrow>
          (case ParseIP L ipStr of
             None \<Rightarrow> addIPsToSet L setName rest c
           | Some ip \<Rightarrow> addIPsToSet L setName rest (send (NewSetElems setName [ip]) c)))"

text \<open>
  \<open>AddRule\<close>. With \<open>m.table\<close> or \<open>m.chain\<close> nil (no \<open>Setup\<close> before) the library
  dereferences a nil pointer; \<open>AddSet\<close> on a named set only buffers a message.
\<close>

definition AddRule :: "golib \<Rightarrow> Rule \<Rightarrow> Manager \<Rightarrow> (nft_error + unit) \<times> Manager" where
  "AddRule L rule m =
     (if \<not> table m \<or> \<not> chain m then (Inl NilPointer, m)
      else
        (let (ipSet, m1) =
               (if length (IPs rule) > 0 then
                  (let setName = ''ips_'' @ sanitizeName (Name rule);
                       c1 = send (NewSet setName) (conn m);
                       c2 = addIPsToSet L setName (IPs rule) c1
                   in (Some setName, m\<lparr>conn := c2, sets := (sets m)(Name rule \<mapsto> setName)\<rparr>))
                else (None, m));
             exprs = buildRuleExpressions L rule ipSet;
             c3 = send (NewRule egress_filter exprs) (conn m1);
             (res, c4) = Flush c3
         in (res, m1\<lparr>conn := c4\<rparr>)))"

definition UpdateIPs :: "golib \<Rightarrow> rune list \<Rightarrow> string list \<Rightarrow> Manager \<Rightarrow> (nft_error + unit) \<times> Manager" where
  "UpdateIPs L ruleName addrs m =
     (case sets m ruleName of
        None \<Rightarrow> (Inl NoIPSet, m)
      | Some setName \<Rightarrow> (Inr (), m\<lparr>conn := addIPsToSet L setName addrs (conn m)\<rparr>))"

subsection \<open>Example inputs\<close>

text \<open>
  The standard library on the address and port texts of the examples below; any other
  text counts as unparseable here.
\<close>

definition example_lib :: golib where
  "example_lib =
     \<lparr>ParseCIDR = map_of [(''10.0.0.0/8'', Some [10, 0, 0, 0])],
      ParseIP = map_of [(''8.8.8.8'', [8, 8, 8, 8]), (''1.1.1.1'', [1, 1, 1, 1]),
                        (''10.0.0.1'', [10, 0, 0, 1]), (''10.0.0.2'', [10, 0, 0, 2])],
      Sscanf_port = map_of [(''53'', 53), (''443'', 443)],
      Sscanf_range = map_of [(''8000-9000'', (8000, 9000))]\<rparr>"

lemmas nft_defs =
  AddRule_def Setup_def Cleanup_def UpdateIPs_def NewManager_def Flush_def send_def
  empty_kernel_def sanitizeName_def ascii_def is_name_rune_def buildRuleExpressions_def
  example_lib_def protocolToNum_def buildPortExpression_def Index_def port_bytes_def
  NFT_SET_MAXNAMELEN_def NFT_RULE_MAXEXPRS_def Let_def char_of_def bit_Suc_0_iff

definition fresh_manager :: Manager where
  "fresh_manager = snd (Setup (NewManager empty_kernel []))"

definition allow_icmp :: Rule where
  "allow_icmp = \<lparr>Name = ascii ''allow-icmp'', Action = ''allow'', Priority = 100,
                  IPs = [], Ports = [], Protocols = [''icmp'']\<rparr>"

definition icmp_packet :: packet where
  "icmp_packet = \<lparr>l4proto = 1,
     network_header = [69, 0, 0, 84, 0, 0, 64, 0, 64, 1, 0, 0, 10, 0, 0, 5, 8, 8, 8, 8],
     transport_header = [8, 0, 0, 0, 0, 1, 0, 1]\<rparr>"

lemma fresh_manager_chain:
  "k_chains (kern (conn fresh_manager)) egress_filter = Some [[Verdict VerdictDrop]]"
  by (simp add: fresh_manager_def nft_defs)

text \<open>
  Claim C1, at a manager set up on an empty kernel and one rule allowing ICMP: the chain
  holds the drop rule of \<open>Setup\<close> first and the rule added after it, so the last rule of the
  chain is the allow rule, and an ICMP packet is dropped by the first rule before the
  allow rule is reached.
\<close>

theorem terminal_drop_is_first:
  "fst (Setup (NewManager empty_kernel [])) = Inr ()
   \<and> fst (AddRule example_lib allow_icmp fresh_manager) = Inr ()
   \<and> k_chains (kern (conn (snd (AddRule example_lib allow_icmp fresh_manager)))) egress_filter
       = Some [[Verdict VerdictDrop], [Meta 1, Cmp 1 [1], Verdict VerdictAccept]]
   \<and> eval_chain (kern (conn (snd (AddRule example_lib allow_icmp fresh_manager)))) icmp_packet
        [[Verdict VerdictDrop], [Meta 1, Cmp 1 [1], Verdict VerdictAccept]] = VerdictDrop"
  by (simp add: fresh_manager_def allow_icmp_def nft_defs)

theorem terminal_drop_is_first_witness:
  "\<exists>rules. k_chains (kern (conn (snd (AddRule example_lib allow_icmp fresh_manager)))) egress_filter
       = Some rules \<and> hd rules = [Verdict VerdictDrop] \<and> last rules \<noteq> [Verdict VerdictDrop]"
  using terminal_drop_is_first by simp

definition allow_dns :: Rule where
  "allow_dns = \<lparr>Name = ascii ''allow-dns'', Action = ''allow'', Priority = 100,
                 IPs = [''8.8.8.8'', ''1.1.1.1''], Ports = [''53''], Protocols = [''udp'', ''tcp'']\<rparr>"

definition dns_packet :: "byte \<Rightarrow> packet" where
  "dns_packet proto = \<lparr>l4proto = proto,
     network_header = [69, 0, 0, 60, 0, 0, 64, 0, 64, proto, 0, 0, 10, 0, 0, 5, 8, 8, 8, 8],
     transport_header = [48, 57, 0, 53, 0, 40, 0, 0]\<rparr>"

lemma foldl_append_blocks:
  "foldl (\<lambda>exprs x. exprs @ f x) acc xs = acc @ concat (map f xs)"
  by (induction xs arbitrary: acc) simp_all

lemma eval_exprs_two_protocols:
  "a \<noteq> b \<Longrightarrow> eval_exprs k p regs ([Meta r, Cmp r [a], Meta r, Cmp r [b]] @ es) = None"
  by simp

lemma two_protocols_never_match:
  assumes "Protocols rule = p1 # p2 # ps" and "protocolToNum p1 \<noteq> protocolToNum p2"
  shows "eval_exprs k pkt regs (buildRuleExpressions L rule ipSet) = None"
proof -
  let ?blk = "\<lambda>proto. [Meta 1, Cmp 1 [protocolToNum proto]]"
  have e1: "foldl (\<lambda>exprs proto. exprs @ ?blk proto) [] (Protocols rule)
      = [Meta 1, Cmp 1 [protocolToNum p1], Meta 1, Cmp 1 [protocolToNum p2]] @ concat (map ?blk ps)"
    unfolding foldl_append_blocks assms(1) by simp
  obtain rest where "buildRuleExpressions L rule ipSet
      = [Meta 1, Cmp 1 [protocolToNum p1], Meta 1, Cmp 1 [protocolToNum p2]] @ rest"
  proof -
    define exprs1 where "exprs1 = foldl (\<lambda>exprs proto. exprs @ ?blk proto) [] (Protocols rule)"
    define pre where "pre = [Meta 1, Cmp 1 [protocolToNum p1], Meta 1, Cmp 1 [protocolToNum p2]]"
    have pf: "\<exists>t. foldl (\<lambda>exprs portStr. case buildPortExpression L portStr of
                  Inl err \<Rightarrow> exprs | Inr portExprs \<Rightarrow> exprs @ portExprs) (pre @ u) ports = pre @ t"
      for u ports
      by (induction ports arbitrary: u) (auto split: sum.splits)
    have "\<exists>u. (case ipSet of None \<Rightarrow> exprs1
                | Some setName \<Rightarrow> exprs1 @ [Payload 1 PayloadBaseNetworkHeader 16 4, Lookup 1 setName])
             = pre @ u"
      using e1 unfolding exprs1_def pre_def by (cases ipSet) auto
    then obtain u where u: "(case ipSet of None \<Rightarrow> exprs1
                | Some setName \<Rightarrow> exprs1 @ [Payload 1 PayloadBaseNetworkHeader 16 4, Lookup 1 setName])
             = pre @ u" ..
    obtain t where t: "foldl (\<lambda>exprs portStr. case buildPortExpression L portStr of
                  Inl err \<Rightarrow> exprs | Inr portExprs \<Rightarrow> exprs @ portExprs) (pre @ u) (Ports rule) = pre @ t"
      using pf by blast
    have "\<exists>rest. buildRuleExpressions L rule ipSet = pre @ rest"
      unfolding buildRuleExpressions_def Let_def exprs1_def [symmetric] u t by simp
    then show ?thesis using that unfolding pre_def by blast
  qed
  then show ?thesis using eval_exprs_two_protocols [OF assms(2)] by simp
qed

text \<open>
  Claim C3, at the rule \<open>allow-dns\<close> of the README (protocols udp and tcp): the rule is
  compiled into one rule of the chain whose expression list compares the protocol with udp
  and then with tcp, so that neither a udp nor a tcp packet to 8.8.8.8 port 53 gets a
  verdict from it.
\<close>

theorem protocols_are_conjoined:
  "buildRuleExpressions example_lib allow_dns (Some ''ips_allow_dns'')
     = [Meta 1, Cmp 1 [17], Meta 1, Cmp 1 [6],
        Payload 1 PayloadBaseNetworkHeader 16 4, Lookup 1 ''ips_allow_dns'',
        Payload 1 PayloadBaseTransportHeader 2 2, Cmp 1 [0, 53], Verdict VerdictAccept]
   \<and> k_chains (kern (conn (snd (AddRule example_lib allow_dns fresh_manager)))) egress_filter
       = Some [[Verdict VerdictDrop],
               buildRuleExpressions example_lib allow_dns (Some ''ips_allow_dns'')]
   \<and> k_sets (kern (conn (snd (AddRule example_lib allow_dns fresh_manager)))) ''ips_allow_dns''
       = Some {[8, 8, 8, 8], [1, 1, 1, 1]}
   \<and> eval_exprs (kern (conn (snd (AddRule example_lib allow_dns fresh_manager))))
        (dns_packet 17) (\<lambda>r. []) (buildRuleExpressions example_lib allow_dns (Some ''ips_allow_dns''))
       = None
   \<and> eval_exprs (kern (conn (snd (AddRule example_lib allow_dns fresh_manager))))
        (dns_packet 6) (\<lambda>r. []) (buildRuleExpressions example_lib allow_dns (Some ''ips_allow_dns''))
       = None"
proof (intro conjI)
  show e: "buildRuleExpressions example_lib allow_dns (Some ''ips_allow_dns'')
     = [Meta 1, Cmp 1 [17], Meta 1, Cmp 1 [6],
        Payload 1 PayloadBaseNetworkHeader 16 4, Lookup 1 ''ips_allow_dns'',
        Payload 1 PayloadBaseTransportHeader 2 2, Cmp 1 [0, 53], Verdict VerdictAccept]"
    by (simp add: allow_dns_def nft_defs)
  show "k_chains (kern (conn (snd (AddRule example_lib allow_dns fresh_manager)))) egress_filter
       = Some [[Verdict VerdictDrop],
               buildRuleExpressions example_lib allow_dns (Some ''ips_allow_dns'')]"
    unfolding e by (simp add: fresh_manager_def allow_dns_def nft_defs)
  show "k_sets (kern (conn (snd (AddRule example_lib allow_dns fresh_manager)))) ''ips_allow_dns''
       = Some {[8, 8, 8, 8], [1, 1, 1, 1]}"
    by (simp add: fresh_manager_def allow_dns_def nft_defs insert_commute)
  show "eval_exprs (kern (conn (snd (AddRule example_lib allow_dns fresh_manager))))
        (dns_packet 17) (\<lambda>r. []) (buildRuleExpressions example_lib allow_dns (Some ''ips_allow_dns''))
       = None"
    unfolding e by (simp add: dns_packet_def header_def bit_0)
  show "eval_exprs (kern (conn (snd (AddRule example_lib allow_dns fresh_manager))))
        (dns_packet 6) (\<lambda>r. []) (buildRuleExpressions example_lib allow_dns (Some ''ips_allow_dns''))
       = None"
    unfolding e by (simp add: dns_packet_def header_def bit_0)
qed

theorem protocols_are_conjoined_witness:
  "length (the (k_chains (kern (conn (snd (AddRule example_lib allow_dns fresh_manager))))
      egress_filter)) = 2
   \<and> eval_exprs (kern (conn (snd (AddRule example_lib allow_dns fresh_manager))))
        (dns_packet 17) (\<lambda>r. []) (buildRuleExpressions example_lib allow_dns (Some ''ips_allow_dns''))
       \<noteq> Some VerdictAccept"
  using protocols_are_conjoined by simp

definition rule_r :: Rule where
  "rule_r = \<lparr>Name = ascii ''r'', Action = ''allow'', Priority = 100,
              IPs = [''10.0.0.1''], Ports = [], Protocols = []\<rparr>"

lemma addIPsToSet_kern: "kern (addIPsToSet L setName addrs c) = kern c"
  by (induction addrs arbitrary: c) (auto simp: send_def split: option.splits)

lemma addIPsToSet_flush_results:
  "flush_results (addIPsToSet L setName addrs c) = flush_results c"
  by (induction addrs arbitrary: c) (auto simp: send_def split: option.splits)

lemma UpdateIPs_not_found:
  "sets m ruleName = None \<Longrightarrow> UpdateIPs L ruleName addrs m = (Inl NoIPSet, m)"
  by (simp add: UpdateIPs_def)

lemma UpdateIPs_kernel_unchanged:
  "kern (conn (snd (UpdateIPs L ruleName addrs m))) = kern (conn m)"
  by (simp add: UpdateIPs_def addIPsToSet_kern split: option.splits)

text \<open>
  Claim C5, at a rule \<open>r\<close> with the address 10.0.0.1 whose set is then updated to
  10.0.0.2: \<open>UpdateIPs\<close> succeeds, but the kernel set still holds 10.0.0.1 alone, the new
  address waiting in the connection's buffer; once a later \<open>Flush\<close> sends the buffer the
  set holds both addresses, the stale one included.
\<close>

theorem UpdateIPs_keeps_stale_members:
  "sets (snd (AddRule example_lib rule_r fresh_manager)) (ascii ''r'') = Some ''ips_r''
   \<and> k_sets (kern (conn (snd (AddRule example_lib rule_r fresh_manager)))) ''ips_r''
       = Some {[10, 0, 0, 1]}
   \<and> fst (UpdateIPs example_lib (ascii ''r'') [''10.0.0.2'']
            (snd (AddRule example_lib rule_r fresh_manager))) = Inr ()
   \<and> k_sets (kern (conn (snd (UpdateIPs example_lib (ascii ''r'') [''10.0.0.2'']
            (snd (AddRule example_lib rule_r fresh_manager)))))) ''ips_r''
       = Some {[10, 0, 0, 1]}
   \<and> messages (conn (snd (UpdateIPs example_lib (ascii ''r'') [''10.0.0.2'']
            (snd (AddRule example_lib rule_r fresh_manager)))))
       = [NewSetElems ''ips_r'' [[10, 0, 0, 2]]]
   \<and> k_sets (kern (snd (Flush (conn (snd (UpdateIPs example_lib (ascii ''r'') [''10.0.0.2'']
            (snd (AddRule example_lib rule_r fresh_manager)))))))) ''ips_r''
       = Some {[10, 0, 0, 1], [10, 0, 0, 2]}"
  by (simp add: fresh_manager_def rule_r_def nft_defs insert_commute)

theorem UpdateIPs_keeps_stale_members_witness:
  "k_sets (kern (conn (snd (UpdateIPs example_lib (ascii ''r'') [''10.0.0.2'']
            (snd (AddRule example_lib rule_r fresh_manager)))))) ''ips_r''
       \<noteq> Some {[10, 0, 0, 2]}
   \<and> k_sets (kern (snd (Flush (conn (snd (UpdateIPs example_lib (ascii ''r'') [''10.0.0.2'']
            (snd (AddRule example_lib rule_r fresh_manager)))))))) ''ips_r''
       \<noteq> Some {[10, 0, 0, 2]}"
proof -
  have "{[10, 0, 0, 1]} \<noteq> {[10, 0, 0, 2 :: byte]}" by simp
  moreover have "{[10, 0, 0, 1], [10, 0, 0, 2]} \<noteq> {[10, 0, 0, 2 :: byte]}" by auto
  ultimately show ?thesis using UpdateIPs_keeps_stale_members by simp
qed

lemma sanitizeName_foldl:
  "foldl (\<lambda>result c. if is_name_rune c then result @ [char_of c] else result @ ''_'') acc name
     = acc @ map (\<lambda>c. if is_name_rune c then char_of c else CHR ''_'') name"
  by (induction name arbitrary: acc) simp_all

lemma sanitizeName_map:
  "sanitizeName name = map (\<lambda>c. if is_name_rune c then char_of c else CHR ''_'') name"
  by (simp add: sanitizeName_def sanitizeName_foldl)

lemma AddRule_sets:
  assumes "table m" and "chain m" and "IPs rule \<noteq> []"
  shows "sets (snd (AddRule L rule m)) = (sets m)(Name rule \<mapsto> ''ips_'' @ sanitizeName (Name rule))"
  using assms by (simp add: AddRule_def Let_def split_beta)

definition rule_a_dot_b :: Rule where
  "rule_a_dot_b = \<lparr>Name = ascii ''a.b'', Action = ''allow'', Priority = 100,
                    IPs = [''10.0.0.1''], Ports = [], Protocols = []\<rparr>"

definition rule_a_dash_b :: Rule where
  "rule_a_dash_b = \<lparr>Name = ascii ''a-b'', Action = ''deny'', Priority = 200,
                     IPs = [''10.0.0.2''], Ports = [], Protocols = []\<rparr>"

definition two_rules_manager :: Manager where
  "two_rules_manager =
     snd (AddRule example_lib rule_a_dash_b (snd (AddRule example_lib rule_a_dot_b fresh_manager)))"

text \<open>
  Claim C10. The set name \<open>AddRule\<close> derives for an address-bearing rule is \<open>ips_\<close>
  followed by the rule name in which every rune outside \<open>[A-Za-z0-9_]\<close> is replaced by an
  underscore. The names \<open>a.b\<close> and \<open>a-b\<close> differ and get the same set name \<open>ips_a_b\<close>:
  after an \<open>AddRule\<close> for each, the kernel holds that one set, with the addresses of both
  rules, and both compiled rules look their destination up in it.
\<close>

theorem set_name_not_injective:
  "sanitizeName name = map (\<lambda>c. if is_name_rune c then char_of c else CHR ''_'') name
   \<and> (table m \<and> chain m \<and> IPs rule \<noteq> [] \<longrightarrow>
        sets (snd (AddRule L rule m)) (Name rule) = Some (''ips_'' @ sanitizeName (Name rule)))
   \<and> ascii ''a.b'' \<noteq> ascii ''a-b''
   \<and> sanitizeName (ascii ''a.b'') = ''a_b'' \<and> sanitizeName (ascii ''a-b'') = ''a_b''
   \<and> sets two_rules_manager (ascii ''a.b'') = Some ''ips_a_b''
   \<and> sets two_rules_manager (ascii ''a-b'') = Some ''ips_a_b''
   \<and> k_sets (kern (conn two_rules_manager)) ''ips_a_b'' = Some {[10, 0, 0, 1], [10, 0, 0, 2]}
   \<and> k_chains (kern (conn two_rules_manager)) egress_filter
       = Some [[Verdict VerdictDrop],
               [Payload 1 PayloadBaseNetworkHeader 16 4, Lookup 1 ''ips_a_b'', Verdict VerdictAccept],
               [Payload 1 PayloadBaseNetworkHeader 16 4, Lookup 1 ''ips_a_b'', Verdict VerdictDrop]]"
proof (intro conjI impI)
  show "sanitizeName name = map (\<lambda>c. if is_name_rune c then char_of c else CHR ''_'') name"
    by (rule sanitizeName_map)
  show "sets (snd (AddRule L rule m)) (Name rule) = Some (''ips_'' @ sanitizeName (Name rule))"
    if "table m \<and> chain m \<and> IPs rule \<noteq> []"
    using that by (simp add: AddRule_sets)
  show "ascii ''a.b'' \<noteq> ascii ''a-b''" by (simp add: ascii_def)
  show "sanitizeName (ascii ''a.b'') = ''a_b''" by (simp add: nft_defs)
  show "sanitizeName (ascii ''a-b'') = ''a_b''" by (simp add: nft_defs)
  show "sets two_rules_manager (ascii ''a.b'') = Some ''ips_a_b''"
    by (simp add: two_rules_manager_def fresh_manager_def rule_a_dot_b_def rule_a_dash_b_def nft_defs)
  show "sets two_rules_manager (ascii ''a-b'') = Some ''ips_a_b''"
    by (simp add: two_rules_manager_def fresh_manager_def rule_a_dot_b_def rule_a_dash_b_def nft_defs)
  show "k_sets (kern (conn two_rules_manager)) ''ips_a_b'' = Some {[10, 0, 0, 1], [10, 0, 0, 2]}"
    by (simp add: two_rules_manager_def fresh_manager_def rule_a_dot_b_def rule_a_dash_b_def nft_defs
        insert_commute)
  show "k_chains (kern (conn two_rules_manager)) egress_filter
       = Some [[Verdict VerdictDrop],
               [Payload 1 PayloadBaseNetworkHeader 16 4, Lookup 1 ''ips_a_b'', Verdict VerdictAccept],
               [Payload 1 PayloadBaseNetworkHeader 16 4, Lookup 1 ''ips_a_b'', Verdict VerdictDrop]]"
    by (simp add: two_rules_manager_def fresh_manager_def rule_a_dot_b_def rule_a_dash_b_def nft_defs)
qed

theorem set_name_not_injective_witness:
  "table fresh_manager \<and> chain fresh_manager \<and> IPs rule_a_dot_b \<noteq> []
   \<and> sets (snd (AddRule example_lib rule_a_dot_b fresh_manager)) (ascii ''a.b'') = Some ''ips_a_b''"
proof -
  have h: "table fresh_manager \<and> chain fresh_manager \<and> IPs rule_a_dot_b \<noteq> []"
    by (simp add: fresh_manager_def rule_a_dot_b_def Setup_def Let_def split_beta)
  have n: "Name rule_a_dot_b = ascii ''a.b''" by (simp add: rule_a_dot_b_def)
  have "sets (snd (AddRule example_lib rule_a_dot_b fresh_manager)) (Name rule_a_dot_b)
      = Some (''ips_'' @ sanitizeName (Name rule_a_dot_b))"
    using set_name_not_injective [of "Name rule_a_dot_b" fresh_manager rule_a_dot_b example_lib] h
    by blast
  moreover have "sanitizeName (ascii ''a.b'') = ''a_b''"
    using set_name_not_injective [of "ascii ''a.b''" fresh_manager rule_a_dot_b example_lib]
    by blast
  ultimately show ?thesis using h n by simp
qed

section \<open>Configuration (pkg/config/config.go)\<close>

text \<open>
  \<open>Action\<close> and \<open>Protocol\<close> are string types in Go. The fields of \<open>config.Rule\<close> and
  \<open>Egress\<close> that share a name with a field of \<open>nftables.Rule\<close> carry a prefix here.
\<close>

definition ActionAllow :: string where "ActionAllow = ''allow''"
definition ActionDeny :: string where "ActionDeny = ''deny''"
definition ProtocolTCP :: string where "ProtocolTCP = ''tcp''"
definition ProtocolUDP :: string where "ProtocolUDP = ''udp''"
definition ProtocolICMP :: string where "ProtocolICMP = ''icmp''"

record Egress =
  egress_Protocols :: "string list"
  Domains :: "string list"
  egress_IPs :: "string list"
  egress_Ports :: "string list"

record ConfigRule =
  rule_Name :: "rune list"
  rule_Action :: string
  Order :: int
  Egress :: Egress

record Config =
  Version :: string
  Rules :: "ConfigRule list"

datatype rule_error = NameRequired | BadAction | InvalidProtocol string

datatype config_error =
    ReadFailed
  | ParseFailed
  | VersionRequired
  | RuleRequired
  | RuleInvalid nat "rune list" rule_error

fun validate_protocols :: "string list \<Rightarrow> rule_error + unit" where
  "validate_protocols [] = Inr ()"
| "validate_protocols (proto # protos) =
     (if proto \<noteq> ProtocolTCP \<and> proto \<noteq> ProtocolUDP \<and> proto \<noteq> ProtocolICMP
      then Inl (InvalidProtocol proto)
      else validate_protocols protos)"

definition Rule_Validate :: "ConfigRule \<Rightarrow> rule_error + unit" where
  "Rule_Validate r =
     (if rule_Name r = [] then Inl NameRequired
      else if rule_Action r \<noteq> ActionAllow \<and> rule_Action r \<noteq> ActionDeny then Inl BadAction
      else validate_protocols (egress_Protocols (Egress r)))"

fun validate_rules :: "nat \<Rightarrow> ConfigRule list \<Rightarrow> config_error + unit" where
  "validate_rules i [] = Inr ()"
| "validate_rules i (rule # rules) =
     (case Rule_Validate rule of
        Inl err \<Rightarrow> Inl (RuleInvalid i (rule_Name rule) err)
      | Inr u \<Rightarrow> validate_rules (Suc i) rules)"

definition Validate :: "Config \<Rightarrow> config_error + unit" where
  "Validate c =
     (if Version c = [] then Inl VersionRequired
      else if length (Rules c) = 0 then Inl RuleRequired
      else validate_rules 0 (Rules c))"

text \<open>
  What \<open>os.ReadFile\<close> and the YAML or JSON decoder make of the file at the time of a
  \<open>Load\<close>: the read fails, the text does not parse, or it parses to a \<open>Config\<close>.
\<close>

datatype config_file = Unreadable | Malformed | Parsed Config

text \<open>
  \<open>Load\<close>. \<open>sort.Slice\<close> belongs to the Go standard library and is a parameter: \<open>sort_Slice
  less xs\<close> is the slice after \<open>sort.Slice(xs, less)\<close>; the closure of \<open>Load\<close> compares the
  \<open>Order\<close> of the two elements at the given positions.
\<close>

definition Load ::
  "((ConfigRule \<Rightarrow> ConfigRule \<Rightarrow> bool) \<Rightarrow> ConfigRule list \<Rightarrow> ConfigRule list)
     \<Rightarrow> config_file \<Rightarrow> config_error + Config" where
  "Load sort_Slice file =
     (case file of
        Unreadable \<Rightarrow> Inl ReadFailed
      | Malformed \<Rightarrow> Inl ParseFailed
      | Parsed cfg \<Rightarrow>
          (case Validate cfg of
             Inl err \<Rightarrow> Inl err
           | Inr u \<Rightarrow> Inr (cfg\<lparr>Rules := sort_Slice (\<lambda>a b. Order a < Order b) (Rules cfg)\<rparr>)))"

section \<open>Filter orchestrator (pkg/filter/filter.go)\<close>

text \<open>
  The filter: the active configuration, the resolver and the manager. The lock, the
  watcher and the stop channel play no part in what one call computes.
\<close>

record Filter =
  config :: Config
  dns :: Resolver
  nft :: Manager

datatype filter_error =
    LoadFailed config_error
  | ValidationFailed config_error
  | CleanupFailed nft_error
  | SetupFailed nft_error
  | ApplyFailed "rune list" nft_error

definition isWildcard :: "string \<Rightarrow> bool" where
  "isWildcard domain = (length domain > 2 \<and> domain ! 0 = CHR ''*'' \<and> domain ! 1 = CHR ''.'')"

definition protocolsToStrings :: "string list \<Rightarrow> string list" where
  "protocolsToStrings protocols = map (\<lambda>p. p) protocols"

text \<open>The \<open>nftables.Rule\<close> that \<open>applyRule\<close> builds from a rule and an address list.\<close>

definition nft_rule :: "ConfigRule \<Rightarrow> string list \<Rightarrow> Rule" where
  "nft_rule rule addrs =
     \<lparr>Name = rule_Name rule, Action = rule_Action rule, Priority = Order rule,
      IPs = addrs, Ports = egress_Ports (Egress rule),
      Protocols = protocolsToStrings (egress_Protocols (Egress rule))\<rparr>"

text \<open>The call \<open>f.nft.AddRule(...)\<close> with its error check.\<close>

definition nft_AddRule :: "golib \<Rightarrow> ConfigRule \<Rightarrow> string list \<Rightarrow> Filter \<Rightarrow> (filter_error + unit) \<times> Filter" where
  "nft_AddRule L rule addrs f =
     (case AddRule L (nft_rule rule addrs) (nft f) of
        (Inl err, m') \<Rightarrow> (Inl (ApplyFailed (rule_Name rule) err), f\<lparr>nft := m'\<rparr>)
      | (Inr u, m') \<Rightarrow> (Inr (), f\<lparr>nft := m'\<rparr>))"

text \<open>The loop of \<open>applyRule\<close> over the domains of a rule.\<close>

fun apply_domains :: "golib \<Rightarrow> env \<Rightarrow> ConfigRule \<Rightarrow> string list \<Rightarrow> Filter \<Rightarrow> (filter_error + unit) \<times> Filter" where
  "apply_domains L e rule [] f = (Inr (), f)"
| "apply_domains L e rule (domain # domains) f =
     (if isWildcard domain then apply_domains L e rule domains f
      else
        (case Resolve e domain (dns f) of
           (Inl err, r') \<Rightarrow> apply_domains L e rule domains (f\<lparr>dns := r'\<rparr>)
         | (Inr addrs, r') \<Rightarrow>
             (case nft_AddRule L rule addrs (f\<lparr>dns := r'\<rparr>) of
                (Inl err, f') \<Rightarrow> (Inl err, f')
              | (Inr u, f') \<Rightarrow> apply_domains L e rule domains f')))"

definition applyRule :: "golib \<Rightarrow> env \<Rightarrow> ConfigRule \<Rightarrow> Filter \<Rightarrow> (filter_error + unit) \<times> Filter" where
  "applyRule L e rule f =
     (case (if length (Domains (Egress rule)) > 0
            then apply_domains L e rule (Domains (Egress rule)) f
            else (Inr (), f)) of
        (Inl err, f1) \<Rightarrow> (Inl err, f1)
      | (Inr u, f1) \<Rightarrow>
          (case (if length (egress_IPs (Egress rule)) > 0
                 then nft_AddRule L rule (egress_IPs (Egress rule)) f1
                 else (Inr (), f1)) of
             (Inl err, f2) \<Rightarrow> (Inl err, f2)
           | (Inr u, f2) \<Rightarrow>
               if length (egress_Protocols (Egress rule)) > 0
                  \<and> length (egress_IPs (Egress rule)) = 0
                  \<and> length (Domains (Egress rule)) = 0
               then nft_AddRule L rule [] f2
               else (Inr (), f2)))"

fun apply_rule_list :: "golib \<Rightarrow> env \<Rightarrow> ConfigRule list \<Rightarrow> Filter \<Rightarrow> (filter_error + unit) \<times> Filter" where
  "apply_rule_list L e [] f = (Inr (), f)"
| "apply_rule_list L e (rule # rules) f =
     (case applyRule L e rule f of
        (Inl err, f') \<Rightarrow> (Inl err, f')
      | (Inr u, f') \<Rightarrow> apply_rule_list L e rules f')"

definition applyRules :: "golib \<Rightarrow> env \<Rightarrow> Filter \<Rightarrow> (filter_error + unit) \<times> Filter" where
  "applyRules L e f = apply_rule_list L e (Rules (config f)) f"

text \<open>
  \<open>reloadConfig\<close>: \<open>file\<close> is what the configuration file holds when it is reread.
\<close>

definition reloadConfig ::
  "((ConfigRule \<Rightarrow> ConfigRule \<Rightarrow> bool) \<Rightarrow> ConfigRule list \<Rightarrow> ConfigRule list)
     \<Rightarrow> golib \<Rightarrow> env \<Rightarrow> config_file \<Rightarrow> Filter \<Rightarrow> (filter_error + unit) \<times> Filter" where
  "reloadConfig sort_Slice L e file f =
     (case Load sort_Slice file of
        Inl err \<Rightarrow> (Inl (LoadFailed err), f)
      | Inr newConfig \<Rightarrow>
          (case Validate newConfig of
             Inl err \<Rightarrow> (Inl (ValidationFailed err), f)
           | Inr u \<Rightarrow>
               (case Cleanup (nft f) of
                  (Inl err, m1) \<Rightarrow> (Inl (CleanupFailed err), f\<lparr>nft := m1\<rparr>)
                | (Inr u, m1) \<Rightarrow>
                    (case Setup m1 of
                       (Inl err, m2) \<Rightarrow> (Inl (SetupFailed err), f\<lparr>nft := m2\<rparr>)
                     | (Inr u, m2) \<Rightarrow> applyRules L e (f\<lparr>nft := m2, config := newConfig\<rparr>)))))"

subsection \<open>Sequences of AddRule calls and their effect on the kernel\<close>

text \<open>What \<open>addIPsToSet\<close> makes of one address text: the key it adds, if any.\<close>

definition parse_addr :: "golib \<Rightarrow> string \<Rightarrow> byte list option" where
  "parse_addr L ipStr = (case ParseCIDR L ipStr of Some ipNet \<Rightarrow> ipNet | None \<Rightarrow> ParseIP L ipStr)"

definition set_name :: "rune list \<Rightarrow> string" where
  "set_name name = ''ips_'' @ sanitizeName name"

text \<open>
  A manager is ready when \<open>Setup\<close> has run, nothing is buffered, the table and the egress
  chain exist in the kernel, and no coming batch fails for an outside reason.
\<close>

definition ready :: "Manager \<Rightarrow> bool" where
  "ready m = (table m \<and> chain m \<and> messages (conn m) = [] \<and> flush_results (conn m) = []
     \<and> k_table (kern (conn m)) \<and> k_chains (kern (conn m)) egress_filter \<noteq> None)"

text \<open>
  The expression list \<open>AddRule\<close> compiles for a rule, and whether the kernel takes the
  batch of \<open>AddRule\<close>: the name of the set and the number of expressions are within its
  limits.
\<close>

definition rule_exprs :: "golib \<Rightarrow> Rule \<Rightarrow> expr list" where
  "rule_exprs L rule =
     buildRuleExpressions L rule (if IPs rule = [] then None else Some (set_name (Name rule)))"

definition accepted :: "golib \<Rightarrow> Rule \<Rightarrow> bool" where
  "accepted L rule =
     ((IPs rule = [] \<or> length (set_name (Name rule)) < NFT_SET_MAXNAMELEN)
      \<and> length (rule_exprs L rule) \<le> NFT_RULE_MAXEXPRS)"

text \<open>The rules of the egress chain and the members of a set, empty when absent.\<close>

definition chain_rules :: "kernel \<Rightarrow> expr list list" where
  "chain_rules k = (case k_chains k egress_filter of None \<Rightarrow> [] | Some rules \<Rightarrow> rules)"

definition set_members :: "kernel \<Rightarrow> string \<Rightarrow> byte list set" where
  "set_members k name = (case k_sets k name of None \<Rightarrow> {} | Some elems \<Rightarrow> elems)"

lemma addIPsToSet_messages:
  "messages (addIPsToSet L n addrs c)
     = messages c @ map (\<lambda>ip. NewSetElems n [ip]) (List.map_filter (parse_addr L) addrs)"
  by (induction addrs arbitrary: c)
     (auto simp: send_def parse_addr_def List.map_filter_simps split: option.splits)

lemma apply_batch_append:
  "apply_batch (xs @ ys) k = (case apply_batch xs k of None \<Rightarrow> None | Some k' \<Rightarrow> apply_batch ys k')"
  by (induction xs arbitrary: k) (auto split: option.splits)

lemma apply_batch_elems:
  "k_sets k n = Some s \<Longrightarrow>
     apply_batch (map (\<lambda>ip. NewSetElems n [ip]) keys) k
       = Some (k\<lparr>k_sets := (k_sets k)(n \<mapsto> s \<union> set keys)\<rparr>)"
proof (induction keys arbitrary: k s)
  case Nil
  then have "(k_sets k)(n \<mapsto> s) = k_sets k" by (simp add: fun_upd_idem)
  then show ?case by simp
next
  case (Cons ip keys)
  let ?k' = "k\<lparr>k_sets := (k_sets k)(n \<mapsto> s \<union> {ip})\<rparr>"
  have step: "apply_msg (NewSetElems n [ip]) k = Some ?k'" using Cons.prems by simp
  have "k_sets ?k' n = Some (s \<union> {ip})" by simp
  from Cons.IH [OF this]
  have "apply_batch (map (\<lambda>ip. NewSetElems n [ip]) keys) ?k'
      = Some (?k'\<lparr>k_sets := (k_sets ?k')(n \<mapsto> s \<union> {ip} \<union> set keys)\<rparr>)" .
  moreover have "?k'\<lparr>k_sets := (k_sets ?k')(n \<mapsto> s \<union> {ip} \<union> set keys)\<rparr>
      = k\<lparr>k_sets := (k_sets k)(n \<mapsto> s \<union> set (ip # keys))\<rparr>"
    by (simp add: Un_assoc)
  ultimately have "apply_batch (map (\<lambda>ip. NewSetElems n [ip]) keys) ?k'
      = Some (k\<lparr>k_sets := (k_sets k)(n \<mapsto> s \<union> set (ip # keys))\<rparr>)" by (simp only:)
  moreover have "apply_batch (map (\<lambda>ip. NewSetElems n [ip]) (ip # keys)) k
      = apply_batch (map (\<lambda>ip. NewSetElems n [ip]) keys) ?k'"
    by (simp only: list.map apply_batch.simps step option.case)
  ultimately show ?case by (simp only:)
qed

text \<open>The kernel after a successful \<open>AddRule\<close> of a ready manager.\<close>

definition kernel_AddRule :: "golib \<Rightarrow> Rule \<Rightarrow> kernel \<Rightarrow> kernel" where
  "kernel_AddRule L rule k =
     (let n = set_name (Name rule);
          k1 = (if IPs rule = [] then k
                else k\<lparr>k_sets := (k_sets k)(n \<mapsto>
                       (case k_sets k n of None \<Rightarrow> {} | Some s \<Rightarrow> s)
                         \<union> set (List.map_filter (parse_addr L) (IPs rule)))\<rparr>)
      in k1\<lparr>k_chains := (k_chains k1)(egress_filter \<mapsto>
              (case k_chains k1 egress_filter of None \<Rightarrow> [] | Some rules \<Rightarrow> rules)
                @ [rule_exprs L rule])\<rparr>)"

lemma apply_batch_set:
  assumes "k_table k" and "length n < NFT_SET_MAXNAMELEN"
  shows "apply_batch (NewSet n # map (\<lambda>ip. NewSetElems n [ip]) keys) k
      = Some (k\<lparr>k_sets := (k_sets k)(n \<mapsto>
               (case k_sets k n of None \<Rightarrow> {} | Some s \<Rightarrow> s) \<union> set keys)\<rparr>)"
proof (cases "k_sets k n")
  case None
  let ?k' = "k\<lparr>k_sets := (k_sets k)(n \<mapsto> {})\<rparr>"
  have a: "apply_msg (NewSet n) k = Some ?k'" using assms None by simp
  have "k_sets ?k' n = Some {}" by simp
  from apply_batch_elems [OF this, of keys]
  have "apply_batch (map (\<lambda>ip. NewSetElems n [ip]) keys) ?k'
      = Some (?k'\<lparr>k_sets := (k_sets ?k')(n \<mapsto> {} \<union> set keys)\<rparr>)" .
  moreover have "?k'\<lparr>k_sets := (k_sets ?k')(n \<mapsto> {} \<union> set keys)\<rparr>
      = k\<lparr>k_sets := (k_sets k)(n \<mapsto> (case k_sets k n of None \<Rightarrow> {} | Some s \<Rightarrow> s) \<union> set keys)\<rparr>"
    using None by simp
  ultimately have "apply_batch (map (\<lambda>ip. NewSetElems n [ip]) keys) ?k'
      = Some (k\<lparr>k_sets := (k_sets k)(n \<mapsto> (case k_sets k n of None \<Rightarrow> {} | Some s \<Rightarrow> s) \<union> set keys)\<rparr>)"
    by (simp only:)
  then show ?thesis by (simp only: apply_batch.simps a option.case)
next
  case (Some s)
  have a: "apply_msg (NewSet n) k = Some k" using assms Some by simp
  from apply_batch_elems [OF Some, of keys]
  have "apply_batch (map (\<lambda>ip. NewSetElems n [ip]) keys) k
      = Some (k\<lparr>k_sets := (k_sets k)(n \<mapsto> s \<union> set keys)\<rparr>)" .
  then have "apply_batch (map (\<lambda>ip. NewSetElems n [ip]) keys) k
      = Some (k\<lparr>k_sets := (k_sets k)(n \<mapsto> (case k_sets k n of None \<Rightarrow> {} | Some s \<Rightarrow> s) \<union> set keys)\<rparr>)"
    using Some by simp
  then show ?thesis by (simp only: apply_batch.simps a option.case)
qed

lemma apply_batch_rule:
  assumes "k_table k" and "k_chains k egress_filter \<noteq> None"
    and "length exprs \<le> NFT_RULE_MAXEXPRS"
  shows "apply_batch [NewRule egress_filter exprs] k
      = Some (k\<lparr>k_chains := (k_chains k)(egress_filter \<mapsto>
               (case k_chains k egress_filter of None \<Rightarrow> [] | Some rules \<Rightarrow> rules) @ [exprs])\<rparr>)"
  using assms by (auto split: option.splits)

lemma Flush_ready:
  assumes "messages c \<noteq> []" and "flush_results c = []" and "apply_batch (messages c) (kern c) = Some k'"
  shows "Flush c = (Inr (), c\<lparr>messages := [], kern := k'\<rparr>)"
  using assms by (simp add: Flush_def)

lemma Flush_refused:
  assumes "messages c \<noteq> []" and "flush_results c = []" and "apply_batch (messages c) (kern c) = None"
  shows "Flush c = (Inl FlushFailed, c\<lparr>messages := []\<rparr>)"
proof -
  have "c\<lparr>messages := [], flush_results := tl (flush_results c)\<rparr> = c\<lparr>messages := []\<rparr>"
    by (rule Conn.equality) (simp_all add: assms(2))
  then show ?thesis using assms by (simp add: Flush_def)
qed

lemma AddRule_ready:
  assumes "ready m" and "accepted L rule"
  shows "AddRule L rule m =
     (Inr (), m\<lparr>conn := (conn m)\<lparr>kern := kernel_AddRule L rule (kern (conn m))\<rparr>,
                sets := (if IPs rule = [] then sets m
                         else (sets m)(Name rule \<mapsto> set_name (Name rule)))\<rparr>)"
proof -
  let ?k = "kern (conn m)"
  let ?n = "set_name (Name rule)"
  from assms(1) have t: "table m" "chain m" and msgs: "messages (conn m) = []"
    and fr: "flush_results (conn m) = []" and kt: "k_table ?k"
    and kc: "k_chains ?k egress_filter \<noteq> None"
    by (simp_all add: ready_def)
  show ?thesis
  proof (cases "IPs rule = []")
    case True
    let ?exprs = "buildRuleExpressions L rule None"
    let ?c3 = "send (NewRule egress_filter ?exprs) (conn m)"
    have le: "length ?exprs \<le> NFT_RULE_MAXEXPRS"
      using assms(2) True by (simp add: accepted_def rule_exprs_def)
    have m3: "messages ?c3 = [NewRule egress_filter ?exprs]" using msgs by (simp add: send_def)
    have ka: "kernel_AddRule L rule ?k = ?k\<lparr>k_chains := (k_chains ?k)(egress_filter \<mapsto>
               (case k_chains ?k egress_filter of None \<Rightarrow> [] | Some rules \<Rightarrow> rules) @ [?exprs])\<rparr>"
      using True by (simp add: kernel_AddRule_def rule_exprs_def Let_def)
    have k3: "kern ?c3 = ?k" by (simp add: send_def)
    have "apply_batch (messages ?c3) (kern ?c3) = Some (kernel_AddRule L rule ?k)"
      unfolding m3 k3 ka using apply_batch_rule [OF kt kc le] by (simp only:)
    then have "Flush ?c3 = (Inr (), ?c3\<lparr>messages := [], kern := kernel_AddRule L rule ?k\<rparr>)"
      using m3 fr by (intro Flush_ready) (simp_all add: send_def)
    moreover have "?c3\<lparr>messages := [], kern := kernel_AddRule L rule ?k\<rparr>
        = (conn m)\<lparr>kern := kernel_AddRule L rule ?k\<rparr>"
      by (rule Conn.equality) (simp_all add: msgs send_def)
    ultimately show ?thesis using True t by (simp add: AddRule_def)
  next
    case False
    let ?keys = "List.map_filter (parse_addr L) (IPs rule)"
    let ?exprs = "buildRuleExpressions L rule (Some ?n)"
    let ?c2 = "addIPsToSet L ?n (IPs rule) (send (NewSet ?n) (conn m))"
    let ?c3 = "send (NewRule egress_filter ?exprs) ?c2"
    let ?k1 = "?k\<lparr>k_sets := (k_sets ?k)(?n \<mapsto>
                 (case k_sets ?k ?n of None \<Rightarrow> {} | Some s \<Rightarrow> s) \<union> set ?keys)\<rparr>"
    have le: "length ?exprs \<le> NFT_RULE_MAXEXPRS" and ln: "length ?n < NFT_SET_MAXNAMELEN"
      using assms(2) False by (simp_all add: accepted_def rule_exprs_def)
    have m3: "messages ?c3 = (NewSet ?n # map (\<lambda>ip. NewSetElems ?n [ip]) ?keys)
                @ [NewRule egress_filter ?exprs]"
      using msgs by (simp add: send_def addIPsToSet_messages)
    have k3: "kern ?c3 = ?k" by (simp add: send_def addIPsToSet_kern)
    have f3: "flush_results ?c3 = []" using fr by (simp add: send_def addIPsToSet_flush_results)
    have b1: "apply_batch (NewSet ?n # map (\<lambda>ip. NewSetElems ?n [ip]) ?keys) ?k = Some ?k1"
      by (rule apply_batch_set [OF kt ln])
    have "k_table ?k1" "k_chains ?k1 egress_filter \<noteq> None" using kt kc by simp_all
    from apply_batch_rule [OF this le]
    have b2: "apply_batch [NewRule egress_filter ?exprs] ?k1 = Some (kernel_AddRule L rule ?k)"
      using False by (simp add: kernel_AddRule_def rule_exprs_def Let_def)
    have "apply_batch (messages ?c3) (kern ?c3) = Some (kernel_AddRule L rule ?k)"
      unfolding m3 k3 apply_batch_append b1 using b2 by (simp only: option.case)
    then have "Flush ?c3 = (Inr (), ?c3\<lparr>messages := [], kern := kernel_AddRule L rule ?k\<rparr>)"
      using m3 f3 by (intro Flush_ready) simp_all
    moreover have "?c3\<lparr>messages := [], kern := kernel_AddRule L rule ?k\<rparr>
        = (conn m)\<lparr>kern := kernel_AddRule L rule ?k\<rparr>"
      by (rule Conn.equality) (simp_all add: msgs f3 fr)
    ultimately show ?thesis using False t by (simp add: AddRule_def set_name_def Let_def)
  qed
qed

text \<open>
  A rule beyond the kernel's limits: the batch is refused as a whole, \<open>AddRule\<close> returns
  the error of \<open>Flush\<close> and the kernel is as before.
\<close>

lemma AddRule_refused:
  assumes "ready m" and "\<not> accepted L rule"
  shows "fst (AddRule L rule m) = Inl FlushFailed"
    and "kern (conn (snd (AddRule L rule m))) = kern (conn m)"
proof -
  let ?k = "kern (conn m)"
  let ?n = "set_name (Name rule)"
  from assms(1) have t: "table m" "chain m" and msgs: "messages (conn m) = []"
    and fr: "flush_results (conn m) = []" and kt: "k_table ?k"
    and kc: "k_chains ?k egress_filter \<noteq> None"
    by (simp_all add: ready_def)
  have "fst (AddRule L rule m) = Inl FlushFailed
      \<and> kern (conn (snd (AddRule L rule m))) = kern (conn m)"
  proof (cases "IPs rule = []")
    case True
    let ?exprs = "buildRuleExpressions L rule None"
    let ?c3 = "send (NewRule egress_filter ?exprs) (conn m)"
    have gt: "length ?exprs > NFT_RULE_MAXEXPRS"
      using assms(2) True by (simp add: accepted_def rule_exprs_def)
    have m3: "messages ?c3 = [NewRule egress_filter ?exprs]" using msgs by (simp add: send_def)
    have k3: "kern ?c3 = ?k" by (simp add: send_def)
    have "apply_batch (messages ?c3) (kern ?c3) = None"
      unfolding m3 k3 using gt by simp
    then have "Flush ?c3 = (Inl FlushFailed, ?c3\<lparr>messages := []\<rparr>)"
      using m3 fr by (intro Flush_refused) (simp_all add: send_def)
    then show ?thesis using True t by (simp add: AddRule_def send_def)
  next
    case False
    let ?keys = "List.map_filter (parse_addr L) (IPs rule)"
    let ?exprs = "buildRuleExpressions L rule (Some ?n)"
    let ?c2 = "addIPsToSet L ?n (IPs rule) (send (NewSet ?n) (conn m))"
    let ?c3 = "send (NewRule egress_filter ?exprs) ?c2"
    let ?k1 = "?k\<lparr>k_sets := (k_sets ?k)(?n \<mapsto>
                 (case k_sets ?k ?n of None \<Rightarrow> {} | Some s \<Rightarrow> s) \<union> set ?keys)\<rparr>"
    have m3: "messages ?c3 = (NewSet ?n # map (\<lambda>ip. NewSetElems ?n [ip]) ?keys)
                @ [NewRule egress_filter ?exprs]"
      using msgs by (simp add: send_def addIPsToSet_messages)
    have k3: "kern ?c3 = ?k" by (simp add: send_def addIPsToSet_kern)
    have f3: "flush_results ?c3 = []" using fr by (simp add: send_def addIPsToSet_flush_results)
    have "apply_batch (messages ?c3) (kern ?c3) = None"
    proof (cases "length ?n < NFT_SET_MAXNAMELEN")
      case True
      then have gt: "length ?exprs > NFT_RULE_MAXEXPRS"
        using assms(2) False by (simp add: accepted_def rule_exprs_def)
      have b1: "apply_batch (NewSet ?n # map (\<lambda>ip. NewSetElems ?n [ip]) ?keys) ?k = Some ?k1"
        by (rule apply_batch_set [OF kt True])
      have b2: "apply_batch [NewRule egress_filter ?exprs] ?k1 = None" using gt by simp
      show ?thesis unfolding m3 k3 apply_batch_append b1 using b2 by (simp only: option.case)
    next
      case False
      then have "apply_msg (NewSet ?n) ?k = None" by simp
      then show ?thesis unfolding m3 k3 by simp
    qed
    then have "Flush ?c3 = (Inl FlushFailed, ?c3\<lparr>messages := []\<rparr>)"
      using m3 f3 by (intro Flush_refused) simp_all
    then show ?thesis using False t k3 by (simp add: AddRule_def set_name_def Let_def)
  qed
  then show "fst (AddRule L rule m) = Inl FlushFailed"
    and "kern (conn (snd (AddRule L rule m))) = kern (conn m)" by simp_all
qed

lemma chain_rules_kernel_AddRule:
  "chain_rules (kernel_AddRule L rule k) = chain_rules k @ [rule_exprs L rule]"
  by (simp add: kernel_AddRule_def chain_rules_def Let_def)

lemma set_members_kernel_AddRule:
  "set_members (kernel_AddRule L rule k) n
     = set_members k n \<union> (if n = set_name (Name rule)
                             then set (List.map_filter (parse_addr L) (IPs rule)) else {})"
  by (simp add: kernel_AddRule_def set_members_def Let_def List.map_filter_simps)

lemma ready_AddRule:
  assumes "ready m" and "accepted L rule"
  shows "ready (snd (AddRule L rule m))"
  using assms(1) unfolding AddRule_ready [OF assms]
  by (simp add: ready_def kernel_AddRule_def Let_def)

text \<open>
  A sequence of \<open>AddRule\<close> calls, each on the manager the one before left, up to the
  first call that returns an error.
\<close>

fun AddRules :: "golib \<Rightarrow> Rule list \<Rightarrow> Manager \<Rightarrow> (nft_error + unit) \<times> Manager" where
  "AddRules L [] m = (Inr (), m)"
| "AddRules L (rule # rules) m =
     (case AddRule L rule m of
        (Inl err, m') \<Rightarrow> (Inl err, m')
      | (Inr u, m') \<Rightarrow> AddRules L rules m')"

lemma AddRules_append:
  "AddRules L (xs @ ys) m =
     (case AddRules L xs m of
        (Inl err, m') \<Rightarrow> (Inl err, m')
      | (Inr u, m') \<Rightarrow> AddRules L ys m')"
  by (induction xs arbitrary: m) (auto split: prod.splits sum.splits)

lemma AddRules_ready:
  assumes "ready m" and "list_all (accepted L) rules"
  shows "fst (AddRules L rules m) = Inr ()
     \<and> ready (snd (AddRules L rules m))
     \<and> kern (conn (snd (AddRules L rules m)))
         = foldl (\<lambda>k rule. kernel_AddRule L rule k) (kern (conn m)) rules"
  using assms
proof (induction rules arbitrary: m)
  case Nil
  then show ?case by simp
next
  case (Cons rule rules)
  from Cons.prems have a: "accepted L rule" and as: "list_all (accepted L) rules" by simp_all
  let ?m' = "snd (AddRule L rule m)"
  have r: "ready ?m'" using Cons.prems(1) a by (rule ready_AddRule)
  have k: "kern (conn ?m') = kernel_AddRule L rule (kern (conn m))"
    unfolding AddRule_ready [OF Cons.prems(1) a] by simp
  have s: "AddRules L (rule # rules) m = AddRules L rules ?m'"
    by (simp add: AddRule_ready [OF Cons.prems(1) a])
  show ?case unfolding s using Cons.IH [OF r as] k by simp
qed

lemma chain_rules_foldl:
  "chain_rules (foldl (\<lambda>k rule. kernel_AddRule L rule k) k rules)
     = chain_rules k @ map (rule_exprs L) rules"
  by (induction rules arbitrary: k) (simp_all add: chain_rules_kernel_AddRule)

lemma set_members_foldl:
  "set_members (foldl (\<lambda>k rule. kernel_AddRule L rule k) k rules) n
     = set_members k n
       \<union> (\<Union>rule \<in> set (filter (\<lambda>rule. set_name (Name rule) = n) rules).
            set (List.map_filter (parse_addr L) (IPs rule)))"
  by (induction rules arbitrary: k) (auto simp: set_members_kernel_AddRule)

subsection \<open>The AddRule calls of applyRule\<close>

text \<open>
  The address lists of the \<open>AddRule\<close> calls the domain loop makes: one for each domain
  that is not a wildcard and resolves, in the order of the domains, each list being what
  \<open>Resolve\<close> returned for that domain. \<open>resolver_after\<close> is the resolver after the loop.
\<close>

fun resolved :: "env \<Rightarrow> string list \<Rightarrow> Resolver \<Rightarrow> string list list" where
  "resolved e [] r = []"
| "resolved e (domain # domains) r =
     (if isWildcard domain then resolved e domains r
      else (case Resolve e domain r of
              (Inl err, r') \<Rightarrow> resolved e domains r'
            | (Inr addrs, r') \<Rightarrow> addrs # resolved e domains r'))"

fun resolver_after :: "env \<Rightarrow> string list \<Rightarrow> Resolver \<Rightarrow> Resolver" where
  "resolver_after e [] r = r"
| "resolver_after e (domain # domains) r =
     (if isWildcard domain then resolver_after e domains r
      else resolver_after e domains (snd (Resolve e domain r)))"

text \<open>
  The arguments of the \<open>AddRule\<close> calls of \<open>applyRule\<close>, in the order of the calls, and
  those of \<open>applyRules\<close> for a list of rules.
\<close>

definition calls :: "env \<Rightarrow> ConfigRule \<Rightarrow> Resolver \<Rightarrow> Rule list" where
  "calls e rule r =
     map (nft_rule rule) (resolved e (Domains (Egress rule)) r)
     @ (if egress_IPs (Egress rule) \<noteq> [] then [nft_rule rule (egress_IPs (Egress rule))] else [])
     @ (if egress_Protocols (Egress rule) \<noteq> [] \<and> egress_IPs (Egress rule) = []
           \<and> Domains (Egress rule) = []
        then [nft_rule rule []] else [])"

fun all_calls :: "env \<Rightarrow> ConfigRule list \<Rightarrow> Resolver \<Rightarrow> Rule list" where
  "all_calls e [] r = []"
| "all_calls e (rule # rules) r =
     calls e rule r @ all_calls e rules (resolver_after e (Domains (Egress rule)) r)"

text \<open>The error of a failed \<open>AddRule\<close> as \<open>applyRule\<close> returns it.\<close>

definition apply_result :: "rune list \<Rightarrow> nft_error + unit \<Rightarrow> filter_error + unit" where
  "apply_result name res = (case res of Inl err \<Rightarrow> Inl (ApplyFailed name err) | Inr u \<Rightarrow> Inr ())"

lemma nft_rule_sel:
  "IPs (nft_rule rule addrs) = addrs" "Name (nft_rule rule addrs) = rule_Name rule"
  "Priority (nft_rule rule addrs) = Order rule"
  by (simp_all add: nft_rule_def)

lemma nft_AddRule_AddRules:
  "nft_AddRule L rule addrs f =
     (apply_result (rule_Name rule) (fst (AddRules L [nft_rule rule addrs] (nft f))),
      f\<lparr>nft := snd (AddRules L [nft_rule rule addrs] (nft f))\<rparr>)"
  by (auto simp: nft_AddRule_def apply_result_def split: prod.splits sum.splits)

lemma apply_domains_calls:
  "fst (apply_domains L e rule ds f)
     = apply_result (rule_Name rule)
         (fst (AddRules L (map (nft_rule rule) (resolved e ds (dns f))) (nft f)))
   \<and> nft (snd (apply_domains L e rule ds f))
       = snd (AddRules L (map (nft_rule rule) (resolved e ds (dns f))) (nft f))
   \<and> config (snd (apply_domains L e rule ds f)) = config f
   \<and> (fst (apply_domains L e rule ds f) = Inr ()
        \<longrightarrow> dns (snd (apply_domains L e rule ds f)) = resolver_after e ds (dns f))"
proof (induction ds arbitrary: f)
  case Nil
  then show ?case by (simp add: apply_result_def)
next
  case (Cons d ds)
  show ?case
  proof (cases "isWildcard d")
    case True
    then show ?thesis using Cons.IH [of f] by simp
  next
    case False
    obtain res r' where r: "Resolve e d (dns f) = (res, r')" by (cases "Resolve e d (dns f)")
    show ?thesis
    proof (cases res)
      case (Inl err)
      then show ?thesis using False r Cons.IH [of "f\<lparr>dns := r'\<rparr>"] by simp
    next
      case (Inr addrs)
      let ?f1 = "f\<lparr>dns := r'\<rparr>"
      obtain x m' where a: "AddRule L (nft_rule rule addrs) (nft f) = (x, m')"
        by (cases "AddRule L (nft_rule rule addrs) (nft f)")
      show ?thesis
      proof (cases x)
        case (Inl err)
        then show ?thesis using False r Inr a
          by (simp add: nft_AddRule_def apply_result_def)
      next
        case u: (Inr u)
        have n: "nft_AddRule L rule addrs ?f1 = (Inr (), ?f1\<lparr>nft := m'\<rparr>)"
          using a u by (simp add: nft_AddRule_def)
        show ?thesis using False r Inr a u n Cons.IH [of "?f1\<lparr>nft := m'\<rparr>"] by simp
      qed
    qed
  qed
qed

lemma applyRule_calls:
  "fst (applyRule L e rule f)
     = apply_result (rule_Name rule) (fst (AddRules L (calls e rule (dns f)) (nft f)))"
  "nft (snd (applyRule L e rule f)) = snd (AddRules L (calls e rule (dns f)) (nft f))"
  "config (snd (applyRule L e rule f)) = config f"
  "fst (applyRule L e rule f) = Inr ()
     \<Longrightarrow> dns (snd (applyRule L e rule f)) = resolver_after e (Domains (Egress rule)) (dns f)"
proof -
  let ?ds = "Domains (Egress rule)"
  let ?ips = "egress_IPs (Egress rule)"
  let ?c1 = "map (nft_rule rule) (resolved e ?ds (dns f))"
  let ?c2 = "if ?ips \<noteq> [] then [nft_rule rule ?ips] else []"
  let ?c3 = "if egress_Protocols (Egress rule) \<noteq> [] \<and> ?ips = [] \<and> ?ds = []
             then [nft_rule rule []] else []"
  obtain x1 f1 where s1: "(if length ?ds > 0 then apply_domains L e rule ?ds f else (Inr (), f))
       = (x1, f1)" by fastforce
  have d1: "x1 = apply_result (rule_Name rule) (fst (AddRules L ?c1 (nft f)))"
    "nft f1 = snd (AddRules L ?c1 (nft f))" "config f1 = config f"
    "x1 = Inr () \<longrightarrow> dns f1 = resolver_after e ?ds (dns f)"
    using s1 apply_domains_calls [of L e rule ?ds f]
    by (auto simp: apply_result_def split: if_splits)
  have all: "fst (applyRule L e rule f)
       = apply_result (rule_Name rule) (fst (AddRules L (calls e rule (dns f)) (nft f)))
     \<and> nft (snd (applyRule L e rule f)) = snd (AddRules L (calls e rule (dns f)) (nft f))
     \<and> config (snd (applyRule L e rule f)) = config f
     \<and> (fst (applyRule L e rule f) = Inr ()
          \<longrightarrow> dns (snd (applyRule L e rule f)) = resolver_after e ?ds (dns f))"
  proof (cases "AddRules L ?c1 (nft f)")
    case (Pair y1 m1)
    show ?thesis
    proof (cases y1)
      case (Inl err)
      then have "applyRule L e rule f = (Inl (ApplyFailed (rule_Name rule) err), f1)"
        using s1 d1(1) Pair by (simp add: applyRule_def apply_result_def)
      moreover have "AddRules L (calls e rule (dns f)) (nft f) = (Inl err, m1)"
        using Pair Inl by (simp add: calls_def AddRules_append)
      ultimately show ?thesis using d1 Pair by (simp add: apply_result_def)
    next
      case u1: (Inr u)
      have x1: "x1 = Inr ()" using d1(1) Pair u1 by (simp add: apply_result_def)
      have m1: "nft f1 = m1" using d1(2) Pair by simp
      have dn1: "dns f1 = resolver_after e ?ds (dns f)" using d1(4) x1 by simp
      obtain x2 f2 where s2: "(if length ?ips > 0 then nft_AddRule L rule ?ips f1 else (Inr (), f1))
          = (x2, f2)" by fastforce
      have d2: "x2 = apply_result (rule_Name rule) (fst (AddRules L ?c2 m1))"
        "nft f2 = snd (AddRules L ?c2 m1)" "config f2 = config f" "dns f2 = dns f1"
        using s2 m1 d1(3) by (auto simp: nft_AddRule_AddRules apply_result_def split: if_splits)
      have c12: "AddRules L (?c1 @ ?c2) (nft f) = AddRules L ?c2 m1"
        using Pair u1 by (simp add: AddRules_append)
      show ?thesis
      proof (cases "AddRules L ?c2 m1")
        case p2: (Pair y2 m2)
        show ?thesis
        proof (cases y2)
          case (Inl err)
          then have "applyRule L e rule f = (Inl (ApplyFailed (rule_Name rule) err), f2)"
            using s1 x1 s2 d2(1) p2 by (simp add: applyRule_def apply_result_def)
          moreover have "AddRules L (calls e rule (dns f)) (nft f) = (Inl err, m2)"
            using c12 p2 Inl AddRules_append [of L "?c1 @ ?c2" ?c3 "nft f"]
            by (simp add: calls_def)
          ultimately show ?thesis using d2 p2 by (simp add: apply_result_def)
        next
          case u2: (Inr u')
          have x2: "x2 = Inr ()" using d2(1) p2 u2 by (simp add: apply_result_def)
          have m2: "nft f2 = m2" using d2(2) p2 by simp
          have c123: "AddRules L (calls e rule (dns f)) (nft f) = AddRules L ?c3 m2"
            using c12 p2 u2 AddRules_append [of L "?c1 @ ?c2" ?c3 "nft f"]
            by (simp add: calls_def)
          have a: "applyRule L e rule f
              = (if egress_Protocols (Egress rule) \<noteq> [] \<and> ?ips = [] \<and> ?ds = []
                 then nft_AddRule L rule [] f2 else (Inr (), f2))"
            using s1 x1 s2 x2 by (simp add: applyRule_def)
          show ?thesis
            unfolding a c123 using m2 d2(3,4) dn1
            by (auto simp: nft_AddRule_AddRules apply_result_def split: prod.splits sum.splits)
        qed
      qed
    qed
  qed
  show "fst (applyRule L e rule f)
     = apply_result (rule_Name rule) (fst (AddRules L (calls e rule (dns f)) (nft f)))"
    using all by simp
  show "nft (snd (applyRule L e rule f)) = snd (AddRules L (calls e rule (dns f)) (nft f))"
    using all by simp
  show "config (snd (applyRule L e rule f)) = config f" using all by simp
  show "dns (snd (applyRule L e rule f)) = resolver_after e (Domains (Egress rule)) (dns f)"
    if "fst (applyRule L e rule f) = Inr ()"
    using all that by simp
qed

lemma apply_rule_list_calls:
  "nft (snd (apply_rule_list L e rules f)) = snd (AddRules L (all_calls e rules (dns f)) (nft f))
   \<and> (fst (apply_rule_list L e rules f) = Inr ()
        \<longleftrightarrow> fst (AddRules L (all_calls e rules (dns f)) (nft f)) = Inr ())
   \<and> config (snd (apply_rule_list L e rules f)) = config f"
proof (induction rules arbitrary: f)
  case Nil
  then show ?case by simp
next
  case (Cons rule rules)
  obtain x f' where a: "applyRule L e rule f = (x, f')" by (cases "applyRule L e rule f")
  obtain y m' where b: "AddRules L (calls e rule (dns f)) (nft f) = (y, m')"
    by (cases "AddRules L (calls e rule (dns f)) (nft f)")
  have x: "x = apply_result (rule_Name rule) y" and m: "nft f' = m'" and c: "config f' = config f"
    using applyRule_calls(1,2,3) [of L e rule f] a b by simp_all
  show ?case
  proof (cases y)
    case (Inl err)
    then show ?thesis using a b x m c by (simp add: AddRules_append apply_result_def)
  next
    case (Inr u)
    then have x': "x = Inr ()" using x by (simp add: apply_result_def)
    then have d: "dns f' = resolver_after e (Domains (Egress rule)) (dns f)"
      using applyRule_calls(4) [of L e rule f] a by simp
    show ?thesis using a b x' Inr m c d Cons.IH [of f'] by (simp add: AddRules_append)
  qed
qed

subsection \<open>Resolved address lists are never empty\<close>

lemma lookup_nonempty:
  "fst (lookup e domain r) = Inr found \<Longrightarrow> found \<noteq> []"
  by (auto simp: lookup_def Let_def split: prod.splits option.splits if_splits)

definition cache_nonempty :: "Resolver \<Rightarrow> bool" where
  "cache_nonempty r = (\<forall>domain entry. cache r domain = Some entry \<longrightarrow> ips entry \<noteq> [])"

lemma Resolve_nonempty:
  assumes "cache_nonempty r" and "fst (Resolve e domain r) = Inr addrs"
  shows "addrs \<noteq> []"
proof (cases "cache_hit e domain r")
  case None
  then show ?thesis
    using assms(2) lookup_nonempty [of e domain r]
    by (auto simp: Resolve_def split: if_splits prod.splits sum.splits)
next
  case (Some entry)
  then have "cache r domain = Some entry"
    by (auto simp: cache_hit_def split: option.splits if_splits)
  then show ?thesis using assms Some by (auto simp: Resolve_def cache_nonempty_def)
qed

lemma Resolve_cache_nonempty:
  assumes "cache_nonempty r"
  shows "cache_nonempty (snd (Resolve e domain r))"
proof (cases "cache_hit e domain r")
  case (Some entry)
  then show ?thesis using assms by (simp add: Resolve_def)
next
  case None
  show ?thesis
  proof (cases "lookup e domain r")
    case (Pair x r')
    have c: "cache r' = cache r" using lookup_cache [of e domain r] Pair by simp
    show ?thesis
    proof (cases x)
      case (Inl err)
      then show ?thesis using None Pair c assms by (simp add: Resolve_def cache_nonempty_def)
    next
      case (Inr found)
      then have "found \<noteq> []" using lookup_nonempty [of e domain r found] Pair by simp
      then show ?thesis using None Pair Inr c assms
        by (auto simp: Resolve_def cache_nonempty_def)
    qed
  qed
qed

lemma refreshCache_cache_nonempty:
  "cache_nonempty r \<Longrightarrow> cache_nonempty (fst (refreshCache e domains r))"
proof (induction domains arbitrary: r)
  case Nil
  then show ?case by simp
next
  case (Cons d ds)
  show ?case
  proof (cases "lookup e d r")
    case (Pair x r')
    have c: "cache r' = cache r" using lookup_cache [of e d r] Pair by simp
    show ?thesis
    proof (cases x)
      case (Inl err)
      have "cache_nonempty r'" using c Cons.prems by (simp add: cache_nonempty_def)
      from Cons.IH [OF this] show ?thesis using Pair Inl by simp
    next
      case (Inr found)
      then have n: "found \<noteq> []" using lookup_nonempty [of e d r found] Pair by simp
      let ?r'' = "r'\<lparr>cache := (cache r')(d \<mapsto>
                       \<lparr>ips = found, expiresAt = now_after_lookup e + dnsCacheTTL\<rparr>)\<rparr>"
      have "cache_nonempty ?r''" using c n Cons.prems by (auto simp: cache_nonempty_def)
      from Cons.IH [OF this] show ?thesis using Pair Inr by (simp add: Let_def split_beta)
    qed
  qed
qed

lemma reachable_cache_nonempty: "reachable r \<Longrightarrow> cache_nonempty r"
proof (induction rule: reachable.induct)
  case init
  then show ?case by (simp add: cache_nonempty_def NewResolver_def)
next
  case (resolve r e domain)
  then show ?case by (simp add: Resolve_cache_nonempty)
next
  case (refresh r domains e)
  then show ?case by (simp add: refreshCache_cache_nonempty)
qed

lemma resolved_nonempty:
  "cache_nonempty r \<Longrightarrow> [] \<notin> set (resolved e ds r)"
proof (induction ds arbitrary: r)
  case Nil
  then show ?case by simp
next
  case (Cons d ds)
  show ?case
  proof (cases "isWildcard d")
    case True
    then show ?thesis using Cons by simp
  next
    case False
    obtain x r' where p: "Resolve e d r = (x, r')" by (cases "Resolve e d r")
    have c: "cache_nonempty r'" using Resolve_cache_nonempty [OF Cons.prems, of e d] p by simp
    show ?thesis
    proof (cases x)
      case (Inl err)
      then show ?thesis using False p Cons.IH [OF c] by simp
    next
      case (Inr addrs)
      then have "addrs \<noteq> []" using Resolve_nonempty [OF Cons.prems, of e d addrs] p by simp
      then show ?thesis using False p Inr Cons.IH [OF c] by auto
    qed
  qed
qed

subsection \<open>Example runs of applyRule\<close>

definition example_dns :: env where
  "example_dns =
     \<lparr>exchange = (\<lambda>server domain.
          if domain = ''a.com'' then Some [A ''10.0.0.1'']
          else if domain = ''b.com'' then Some [A ''10.0.0.2'']
          else None),
      lookupHost = (\<lambda>domain. None), now = 0, now_after_lookup = 0\<rparr>"

definition example_filter :: Filter where
  "example_filter = \<lparr>config = \<lparr>Version = ''1.0'', Rules = []\<rparr>, dns = NewResolver, nft = fresh_manager\<rparr>"

definition rule_both :: ConfigRule where
  "rule_both = \<lparr>rule_Name = ascii ''both'', rule_Action = ''allow'', Order = 100,
     Egress = \<lparr>egress_Protocols = [], Domains = [''a.com''], egress_IPs = [''10.0.0.2''],
                egress_Ports = []\<rparr>\<rparr>"

definition rule_ports_only :: ConfigRule where
  "rule_ports_only = \<lparr>rule_Name = ascii ''web'', rule_Action = ''allow'', Order = 100,
     Egress = \<lparr>egress_Protocols = [], Domains = [], egress_IPs = [], egress_Ports = [''443'']\<rparr>\<rparr>"

definition rule_two_domains :: ConfigRule where
  "rule_two_domains = \<lparr>rule_Name = ascii ''web'', rule_Action = ''allow'', Order = 100,
     Egress = \<lparr>egress_Protocols = [''tcp''], Domains = [''a.com'', ''b.com''], egress_IPs = [],
                egress_Ports = [''443'']\<rparr>\<rparr>"

lemmas filter_defs =
  applyRule_def nft_AddRule_def nft_rule_def protocolsToStrings_def isWildcard_def
  Resolve_def cache_hit_def lookup_def NewResolver_def HasPrefix_def dnsCacheTTL_def
  example_dns_def example_filter_def fresh_manager_def chain_rules_def set_members_def

lemma fresh_manager_ready: "ready fresh_manager"
  by (simp add: ready_def fresh_manager_def nft_defs)

lemma example_filter_ready: "ready (nft example_filter)"
  by (simp add: example_filter_def fresh_manager_ready)

text \<open>
  Claim C7 fails as stated. The rule \<open>both\<close> names a domain and an IP: \<open>applyRule\<close>
  compiles the rule for the domain and then the rule for the literal IP as well. The rule
  \<open>web\<close> has a port and nothing else: \<open>applyRule\<close> leaves the filter as it was, no rule is
  compiled.
\<close>

theorem applyRule_not_exclusive:
  "chain_rules (kern (conn (nft example_filter))) = [[Verdict VerdictDrop]]
   \<and> chain_rules (kern (conn (nft (snd (applyRule example_lib example_dns rule_both example_filter)))))
       = [[Verdict VerdictDrop],
          [Payload 1 PayloadBaseNetworkHeader 16 4, Lookup 1 ''ips_both'', Verdict VerdictAccept],
          [Payload 1 PayloadBaseNetworkHeader 16 4, Lookup 1 ''ips_both'', Verdict VerdictAccept]]
   \<and> set_members (kern (conn (nft (snd (applyRule example_lib example_dns rule_both example_filter)))))
         ''ips_both'' = {[10, 0, 0, 1], [10, 0, 0, 2]}
   \<and> applyRule example_lib example_dns rule_ports_only example_filter = (Inr (), example_filter)"
proof (intro conjI)
  show "chain_rules (kern (conn (nft example_filter))) = [[Verdict VerdictDrop]]"
    by (simp add: filter_defs nft_defs)
  show "chain_rules (kern (conn (nft (snd (applyRule example_lib example_dns rule_both example_filter)))))
       = [[Verdict VerdictDrop],
          [Payload 1 PayloadBaseNetworkHeader 16 4, Lookup 1 ''ips_both'', Verdict VerdictAccept],
          [Payload 1 PayloadBaseNetworkHeader 16 4, Lookup 1 ''ips_both'', Verdict VerdictAccept]]"
    by (simp add: rule_both_def filter_defs nft_defs)
  show "set_members (kern (conn (nft (snd (applyRule example_lib example_dns rule_both example_filter)))))
         ''ips_both'' = {[10, 0, 0, 1], [10, 0, 0, 2]}"
    by (simp add: rule_both_def filter_defs nft_defs insert_commute)
  show "applyRule example_lib example_dns rule_ports_only example_filter = (Inr (), example_filter)"
    by (simp add: rule_ports_only_def applyRule_def)
qed

text \<open>
  Claim C7 as amended, for a rule that names a domain, an IP entry or a protocol.
  \<open>applyRule\<close> makes these \<open>AddRule\<close> calls, in this order and up to the first that
  fails: one for each domain that is not a wildcard and resolves, with the address list
  \<open>Resolve\<close> returned for that domain; then one with the literal IP list whenever the rule
  has IP entries, whether it has domains or not; then one with no addresses when the rule
  has neither IPs nor domains. It makes no other call, and it returns the error of the call
  that failed, under the rule's name, or nil. The calls differ in their address list only.
\<close>

theorem applyRule_steps:
  assumes "Domains (Egress rule) \<noteq> [] \<or> egress_IPs (Egress rule) \<noteq> []
         \<or> egress_Protocols (Egress rule) \<noteq> []"
  shows "(let calls =
            map (nft_rule rule) (resolved e (Domains (Egress rule)) (dns f))
            @ (if egress_IPs (Egress rule) \<noteq> []
               then [nft_rule rule (egress_IPs (Egress rule))] else [])
            @ (if egress_IPs (Egress rule) = [] \<and> Domains (Egress rule) = []
               then [nft_rule rule []] else [])
          in nft (snd (applyRule L e rule f)) = snd (AddRules L calls (nft f))
             \<and> fst (applyRule L e rule f)
                 = (case fst (AddRules L calls (nft f)) of
                      Inl err \<Rightarrow> Inl (ApplyFailed (rule_Name rule) err)
                    | Inr u \<Rightarrow> Inr ()))
     \<and> nft_rule rule addrs
         = \<lparr>Name = rule_Name rule, Action = rule_Action rule, Priority = Order rule,
            IPs = addrs, Ports = egress_Ports (Egress rule),
            Protocols = egress_Protocols (Egress rule)\<rparr>"
proof -
  have "(egress_Protocols (Egress rule) \<noteq> [] \<and> egress_IPs (Egress rule) = []
           \<and> Domains (Egress rule) = [])
        = (egress_IPs (Egress rule) = [] \<and> Domains (Egress rule) = [])"
    using assms by blast
  then have c: "calls e rule (dns f)
      = map (nft_rule rule) (resolved e (Domains (Egress rule)) (dns f))
        @ (if egress_IPs (Egress rule) \<noteq> []
           then [nft_rule rule (egress_IPs (Egress rule))] else [])
        @ (if egress_IPs (Egress rule) = [] \<and> Domains (Egress rule) = []
           then [nft_rule rule []] else [])"
    by (simp only: calls_def)
  have n: "nft_rule rule addrs
         = \<lparr>Name = rule_Name rule, Action = rule_Action rule, Priority = Order rule,
            IPs = addrs, Ports = egress_Ports (Egress rule),
            Protocols = egress_Protocols (Egress rule)\<rparr>"
    by (simp add: nft_rule_def protocolsToStrings_def)
  show ?thesis
    using applyRule_calls(1,2) [of L e rule f] n
    unfolding c apply_result_def Let_def by simp
qed

theorem applyRule_steps_witness:
  "Domains (Egress rule_both) = [''a.com'']
   \<and> egress_IPs (Egress rule_both) = [''10.0.0.2'']
   \<and> resolved example_dns (Domains (Egress rule_both)) (dns example_filter) = [[''10.0.0.1'']]
   \<and> nft (snd (applyRule example_lib example_dns rule_both example_filter))
       = snd (AddRules example_lib
                [nft_rule rule_both [''10.0.0.1''], nft_rule rule_both [''10.0.0.2'']]
                (nft example_filter))
   \<and> fst (applyRule example_lib example_dns rule_both example_filter) = Inr ()"
proof -
  have d: "Domains (Egress rule_both) = [''a.com'']"
    and i: "egress_IPs (Egress rule_both) = [''10.0.0.2'']"
    by (simp_all add: rule_both_def)
  have r: "resolved example_dns (Domains (Egress rule_both)) (dns example_filter) = [[''10.0.0.1'']]"
    by (simp add: rule_both_def filter_defs)
  have h: "Domains (Egress rule_both) \<noteq> [] \<or> egress_IPs (Egress rule_both) \<noteq> []
      \<or> egress_Protocols (Egress rule_both) \<noteq> []"
    by (simp add: rule_both_def)
  have s: "fst (applyRule example_lib example_dns rule_both example_filter) = Inr ()"
    by (simp add: rule_both_def filter_defs nft_defs)
  note t = applyRule_steps [OF h, of example_dns example_filter example_lib "[]",
      unfolded Let_def r, THEN conjunct1, THEN conjunct1]
  have "nft (snd (applyRule example_lib example_dns rule_both example_filter))
       = snd (AddRules example_lib
                [nft_rule rule_both [''10.0.0.1''], nft_rule rule_both [''10.0.0.2'']]
                (nft example_filter))"
    using t unfolding i by (simp del: AddRules.simps)
  with d i r s show ?thesis by (intro conjI)
qed

text \<open>
  Claim C4 fails as stated. The rule \<open>web\<close> names \<open>a.com\<close> (10.0.0.1) and \<open>b.com\<close>
  (10.0.0.2): two rules are compiled, and both look the destination up in the one set
  \<open>ips_web\<close>, which holds the addresses of both domains.
\<close>

theorem domains_share_one_set_example:
  "chain_rules (kern (conn (nft (snd (applyRule example_lib example_dns rule_two_domains example_filter)))))
     = [[Verdict VerdictDrop],
        [Meta 1, Cmp 1 [6], Payload 1 PayloadBaseNetworkHeader 16 4, Lookup 1 ''ips_web'',
         Payload 1 PayloadBaseTransportHeader 2 2, Cmp 1 [1, 187], Verdict VerdictAccept],
        [Meta 1, Cmp 1 [6], Payload 1 PayloadBaseNetworkHeader 16 4, Lookup 1 ''ips_web'',
         Payload 1 PayloadBaseTransportHeader 2 2, Cmp 1 [1, 187], Verdict VerdictAccept]]
   \<and> k_sets (kern (conn (nft (snd (applyRule example_lib example_dns rule_two_domains example_filter)))))
        ''ips_web'' = Some {[10, 0, 0, 1], [10, 0, 0, 2]}"
proof (intro conjI)
  show "chain_rules (kern (conn (nft (snd (applyRule example_lib example_dns rule_two_domains example_filter)))))
     = [[Verdict VerdictDrop],
        [Meta 1, Cmp 1 [6], Payload 1 PayloadBaseNetworkHeader 16 4, Lookup 1 ''ips_web'',
         Payload 1 PayloadBaseTransportHeader 2 2, Cmp 1 [1, 187], Verdict VerdictAccept],
        [Meta 1, Cmp 1 [6], Payload 1 PayloadBaseNetworkHeader 16 4, Lookup 1 ''ips_web'',
         Payload 1 PayloadBaseTransportHeader 2 2, Cmp 1 [1, 187], Verdict VerdictAccept]]"
    by (simp add: rule_two_domains_def filter_defs nft_defs)
  show "k_sets (kern (conn (nft (snd (applyRule example_lib example_dns rule_two_domains example_filter)))))
        ''ips_web'' = Some {[10, 0, 0, 1], [10, 0, 0, 2]}"
    by (simp add: rule_two_domains_def filter_defs nft_defs insert_commute)
qed

lemma buildRuleExpressions_IPs:
  "buildRuleExpressions L (nft_rule rule a) s = buildRuleExpressions L (nft_rule rule b) s"
  by (simp add: buildRuleExpressions_def nft_rule_def)

lemma rule_exprs_nonempty:
  "a \<noteq> [] \<Longrightarrow> rule_exprs L (nft_rule rule a)
     = buildRuleExpressions L (nft_rule rule []) (Some (set_name (rule_Name rule)))"
  using buildRuleExpressions_IPs [of L rule a "Some (set_name (rule_Name rule))" "[]"]
  by (simp add: rule_exprs_def nft_rule_sel)

text \<open>
  Claim C4 as amended. Take a rule that names domains, on a ready manager and a resolver
  the program can be in, the rule's set name and expression list being within the kernel's
  limits. \<open>applyRule\<close> succeeds, and its \<open>AddRule\<close> calls are one for each domain that is
  not a wildcard and resolves, each with the address list \<open>Resolve\<close> returned for that
  domain alone as its \<open>IPs\<close>, followed by one with the literal IP list if the rule has IP
  entries. Each call appends one rule to the chain. All these rules are the same
  expression list, which looks the destination up in the one set named after the rule; and
  that set gains the addresses of all the calls together.
\<close>

theorem domains_share_one_set:
  assumes "ready (nft f)" and "reachable (dns f)"
    and "Domains (Egress rule) \<noteq> []"
    and "length (set_name (rule_Name rule)) < NFT_SET_MAXNAMELEN"
    and "length (buildRuleExpressions L (nft_rule rule []) (Some (set_name (rule_Name rule))))
           \<le> NFT_RULE_MAXEXPRS"
  shows "(let as = resolved e (Domains (Egress rule)) (dns f);
              literal = (if egress_IPs (Egress rule) \<noteq> [] then [egress_IPs (Egress rule)] else []);
              f' = snd (applyRule L e rule f)
          in fst (applyRule L e rule f) = Inr ()
             \<and> nft f' = snd (AddRules L (map (nft_rule rule) (as @ literal)) (nft f))
             \<and> chain_rules (kern (conn (nft f')))
                 = chain_rules (kern (conn (nft f)))
                   @ replicate (length (as @ literal))
                       (buildRuleExpressions L (nft_rule rule [])
                          (Some (set_name (rule_Name rule))))
             \<and> set_members (kern (conn (nft f'))) (set_name (rule_Name rule))
                 = set_members (kern (conn (nft f))) (set_name (rule_Name rule))
                   \<union> (\<Union>addrs \<in> set (as @ literal). set (List.map_filter (parse_addr L) addrs)))
     \<and> IPs (nft_rule rule addrs) = addrs"
proof -
  define as where "as = resolved e (Domains (Egress rule)) (dns f)"
  define literal where
    "literal = (if egress_IPs (Egress rule) \<noteq> [] then [egress_IPs (Egress rule)] else [])"
  let ?x = "buildRuleExpressions L (nft_rule rule []) (Some (set_name (rule_Name rule)))"
  let ?cs = "map (nft_rule rule) (as @ literal)"
  have c: "calls e rule (dns f) = ?cs"
    using assms(3) by (simp add: calls_def as_def literal_def)
  have ne: "[] \<notin> set (as @ literal)"
    using resolved_nonempty [OF reachable_cache_nonempty [OF assms(2)], of e "Domains (Egress rule)"]
    by (simp add: as_def literal_def)
  have ex: "rule_exprs L (nft_rule rule a) = ?x" if "a \<in> set (as @ literal)" for a
    using that ne by (intro rule_exprs_nonempty) auto
  have acc: "list_all (accepted L) ?cs"
    unfolding list_all_iff
  proof
    fix c assume "c \<in> set ?cs"
    then obtain a where a: "a \<in> set (as @ literal)" and ca: "c = nft_rule rule a" by auto
    show "accepted L c"
      unfolding ca accepted_def using ex [OF a] assms(4,5) by (simp add: nft_rule_sel)
  qed
  note r = AddRules_ready [OF assms(1) acc]
  have s: "fst (applyRule L e rule f) = Inr ()"
    using applyRule_calls(1) [of L e rule f] r unfolding c by (simp add: apply_result_def)
  have n: "nft (snd (applyRule L e rule f)) = snd (AddRules L ?cs (nft f))"
    using applyRule_calls(2) [of L e rule f] unfolding c .
  have k: "kern (conn (nft (snd (applyRule L e rule f))))
      = foldl (\<lambda>k rule. kernel_AddRule L rule k) (kern (conn (nft f))) ?cs"
    unfolding n using r by simp
  have m: "map (rule_exprs L) ?cs = replicate (length (as @ literal)) ?x"
  proof -
    have "map (rule_exprs L) ?cs = map (\<lambda>a. ?x) (as @ literal)"
      unfolding map_map comp_def by (intro map_cong refl ex)
    then show ?thesis by (simp only: map_replicate_const)
  qed
  have ch: "chain_rules (kern (conn (nft (snd (applyRule L e rule f)))))
      = chain_rules (kern (conn (nft f))) @ replicate (length (as @ literal)) ?x"
    unfolding k chain_rules_foldl m ..
  have f: "filter (\<lambda>c. set_name (Name c) = set_name (rule_Name rule)) ?cs = ?cs"
    by (simp add: nft_rule_sel)
  have sm: "set_members (kern (conn (nft (snd (applyRule L e rule f))))) (set_name (rule_Name rule))
      = set_members (kern (conn (nft f))) (set_name (rule_Name rule))
        \<union> (\<Union>addrs \<in> set (as @ literal). set (List.map_filter (parse_addr L) addrs))"
    unfolding k set_members_foldl f by (simp add: nft_rule_sel)
  show ?thesis
    using s n ch sm nft_rule_sel(1) [of rule addrs]
    unfolding Let_def as_def [symmetric] literal_def [symmetric] by (intro conjI)
qed

theorem domains_share_one_set_witness:
  "ready (nft example_filter) \<and> reachable (dns example_filter)
   \<and> Domains (Egress rule_two_domains) = [''a.com'', ''b.com'']
   \<and> length (set_name (rule_Name rule_two_domains)) = 7
   \<and> length (buildRuleExpressions example_lib (nft_rule rule_two_domains [])
               (Some (set_name (rule_Name rule_two_domains)))) = 7
   \<and> resolved example_dns (Domains (Egress rule_two_domains)) (dns example_filter)
       = [[''10.0.0.1''], [''10.0.0.2'']]
   \<and> nft (snd (applyRule example_lib example_dns rule_two_domains example_filter))
       = snd (AddRules example_lib
                [nft_rule rule_two_domains [''10.0.0.1''], nft_rule rule_two_domains [''10.0.0.2'']]
                (nft example_filter))
   \<and> set_members (kern (conn (nft (snd (applyRule example_lib example_dns rule_two_domains
          example_filter))))) (set_name (rule_Name rule_two_domains))
       = {[10, 0, 0, 1], [10, 0, 0, 2]}"
proof -
  note r = example_filter_ready
  have q: "reachable (dns example_filter)"
    by (simp add: example_filter_def reachable.init)
  have dm: "Domains (Egress rule_two_domains) = [''a.com'', ''b.com'']"
    and i: "egress_IPs (Egress rule_two_domains) = []"
    by (simp_all add: rule_two_domains_def)
  have ln: "length (set_name (rule_Name rule_two_domains)) = 7"
    by (simp add: rule_two_domains_def set_name_def nft_defs)
  have le: "length (buildRuleExpressions example_lib (nft_rule rule_two_domains [])
               (Some (set_name (rule_Name rule_two_domains)))) = 7"
    by (simp add: rule_two_domains_def set_name_def nft_rule_def protocolsToStrings_def nft_defs)
  have d: "resolved example_dns (Domains (Egress rule_two_domains)) (dns example_filter)
      = [[''10.0.0.1''], [''10.0.0.2'']]"
    by (simp add: rule_two_domains_def filter_defs)
  have s0: "set_members (kern (conn (nft example_filter))) (set_name (rule_Name rule_two_domains)) = {}"
    by (simp add: filter_defs nft_defs)
  have p: "(\<Union>addrs \<in> set [[''10.0.0.1''], [''10.0.0.2'']].
              set (List.map_filter (parse_addr example_lib) addrs)) = {[10, 0, 0, 1], [10, 0, 0, 2]}"
    by (simp add: List.map_filter_simps parse_addr_def example_lib_def insert_commute)
  have h3: "Domains (Egress rule_two_domains) \<noteq> []" using dm by simp
  have h4: "length (set_name (rule_Name rule_two_domains)) < NFT_SET_MAXNAMELEN"
    using ln by (simp add: NFT_SET_MAXNAMELEN_def)
  have h5: "length (buildRuleExpressions example_lib (nft_rule rule_two_domains [])
               (Some (set_name (rule_Name rule_two_domains)))) \<le> NFT_RULE_MAXEXPRS"
    using le by (simp add: NFT_RULE_MAXEXPRS_def)
  note t = domains_share_one_set [OF r q h3 h4 h5, of example_dns "[]", unfolded Let_def d i,
      THEN conjunct1]
  have n: "nft (snd (applyRule example_lib example_dns rule_two_domains example_filter))
       = snd (AddRules example_lib
                [nft_rule rule_two_domains [''10.0.0.1''], nft_rule rule_two_domains [''10.0.0.2'']]
                (nft example_filter))"
    using t [THEN conjunct2, THEN conjunct1] by (simp del: AddRules.simps)
  have m: "set_members (kern (conn (nft (snd (applyRule example_lib example_dns rule_two_domains
          example_filter))))) (set_name (rule_Name rule_two_domains))
       = {[10, 0, 0, 1], [10, 0, 0, 2]}"
    using t [THEN conjunct2, THEN conjunct2, THEN conjunct2] p unfolding s0 by simp
  from r q dm ln le d n m show ?thesis by (intro conjI)
qed

section \<open>sort.Slice of the Go standard library\<close>

text \<open>
  \<open>Load\<close> orders the rules with \<open>sort.Slice\<close>, which is not code of the repository. This
  section follows the library's implementation since Go 1.19 (\<open>go.mod\<close> asks for Go 1.21):
  the pattern-defeating quicksort of \<open>sort/zsortfunc.go\<close>, working on the slice through
  \<open>Less(i, j)\<close> and \<open>Swap(i, j)\<close>. Indices are Go's \<open>int\<close>; every index the algorithm uses
  lies inside the range it sorts. The shifts of the \<open>xorshift\<close> generator in
  \<open>breakPatterns_func\<close> are those of the 64-bit generator of the paper the library cites;
  no result below runs through \<open>breakPatterns_func\<close>.
\<close>

definition Less :: "('a \<Rightarrow> 'a \<Rightarrow> bool) \<Rightarrow> 'a list \<Rightarrow> int \<Rightarrow> int \<Rightarrow> bool" where
  "Less lt data i j = lt (data ! nat i) (data ! nat j)"

definition Swap :: "'a list \<Rightarrow> int \<Rightarrow> int \<Rightarrow> 'a list" where
  "Swap data i j = data[nat i := data ! nat j, nat j := data ! nat i]"

function insertion_inner :: "('a \<Rightarrow> 'a \<Rightarrow> bool) \<Rightarrow> 'a list \<Rightarrow> int \<Rightarrow> int \<Rightarrow> 'a list" where
  "insertion_inner lt data a j =
     (if j > a \<and> Less lt data j (j - 1)
      then insertion_inner lt (Swap data j (j - 1)) a (j - 1)
      else data)"
  by pat_completeness auto
termination
  by (relation "measure (\<lambda>(lt, data, a, j). nat (j - a))") auto

function insertion_outer :: "('a \<Rightarrow> 'a \<Rightarrow> bool) \<Rightarrow> 'a list \<Rightarrow> int \<Rightarrow> int \<Rightarrow> int \<Rightarrow> 'a list" where
  "insertion_outer lt data a b i =
     (if i < b then insertion_outer lt (insertion_inner lt data a i) a b (i + 1) else data)"
  by pat_completeness auto
termination
  by (relation "measure (\<lambda>(lt, data, a, b, i). nat (b - i))") auto

definition insertionSort_func :: "('a \<Rightarrow> 'a \<Rightarrow> bool) \<Rightarrow> 'a list \<Rightarrow> int \<Rightarrow> int \<Rightarrow> 'a list" where
  "insertionSort_func lt data a b = insertion_outer lt data a b (a + 1)"

text \<open>
  \<open>siftDown_func\<close>; \<open>root\<close> is never negative (Go would panic on the index), and the
  model stops there.
\<close>

function siftDown_func :: "('a \<Rightarrow> 'a \<Rightarrow> bool) \<Rightarrow> 'a list \<Rightarrow> int \<Rightarrow> int \<Rightarrow> int \<Rightarrow> 'a list" where
  "siftDown_func lt data root hi first =
     (let child = 2 * root + 1 in
      if child \<ge> hi \<or> root < 0 then data
      else
        (let child' = (if child + 1 < hi \<and> Less lt data (first + child) (first + child + 1)
                       then child + 1 else child)
         in if \<not> Less lt data (first + root) (first + child') then data
            else siftDown_func lt (Swap data (first + root) (first + child')) child' hi first))"
  by pat_completeness auto
termination
  by (relation "measure (\<lambda>(lt, data, root, hi, first). nat (hi - root))") auto

function heap_build :: "('a \<Rightarrow> 'a \<Rightarrow> bool) \<Rightarrow> 'a list \<Rightarrow> int \<Rightarrow> int \<Rightarrow> int \<Rightarrow> 'a list" where
  "heap_build lt data i hi first =
     (if i \<ge> 0 then heap_build lt (siftDown_func lt data i hi first) (i - 1) hi first else data)"
  by pat_completeness auto
termination
  by (relation "measure (\<lambda>(lt, data, i, hi, first). nat (i + 1))") auto

function heap_pop :: "('a \<Rightarrow> 'a \<Rightarrow> bool) \<Rightarrow> 'a list \<Rightarrow> int \<Rightarrow> int \<Rightarrow> int \<Rightarrow> 'a list" where
  "heap_pop lt data i lo first =
     (if i \<ge> 0
      then heap_pop lt (siftDown_func lt (Swap data first (first + i)) lo i first) (i - 1) lo first
      else data)"
  by pat_completeness auto
termination
  by (relation "measure (\<lambda>(lt, data, i, lo, first). nat (i + 1))") auto

definition heapSort_func :: "('a \<Rightarrow> 'a \<Rightarrow> bool) \<Rightarrow> 'a list \<Rightarrow> int \<Rightarrow> int \<Rightarrow> 'a list" where
  "heapSort_func lt data a b =
     (let first = a; lo = 0; hi = b - a;
          data1 = heap_build lt data ((hi - 1) sdiv 2) hi first
      in heap_pop lt data1 (hi - 1) lo first)"

datatype sortedHint = unknownHint | increasingHint | decreasingHint

definition xorshift_Next :: "64 word \<Rightarrow> 64 word" where
  "xorshift_Next r =
     (let r1 = r XOR push_bit 13 r;
          r2 = r1 XOR drop_bit 7 r1
      in r2 XOR push_bit 17 r2)"

fun bits_Len :: "nat \<Rightarrow> nat" where
  "bits_Len n = (if n = 0 then 0 else Suc (bits_Len (n div 2)))"

definition nextPowerOfTwo :: "int \<Rightarrow> 64 word" where
  "nextPowerOfTwo len = push_bit (bits_Len (nat len)) 1"

fun breakPatterns_loop :: "nat \<Rightarrow> 'a list \<Rightarrow> int \<Rightarrow> int \<Rightarrow> int \<Rightarrow> 64 word \<Rightarrow> 64 word \<Rightarrow> int \<Rightarrow> 'a list" where
  "breakPatterns_loop 0 data a len idx random modulus i = data"
| "breakPatterns_loop (Suc n) data a len idx random modulus i =
     (let random' = xorshift_Next random;
          other = uint (random' AND (modulus - 1));
          other' = (if other \<ge> len then other - len else other)
      in breakPatterns_loop n (Swap data (idx - 1 + i) (a + other')) a len idx random' modulus
           (i + 1))"

definition breakPatterns_func :: "'a list \<Rightarrow> int \<Rightarrow> int \<Rightarrow> 'a list" where
  "breakPatterns_func data a b =
     (let len = b - a in
      if len \<ge> 8 then
        (let random = (of_int len :: 64 word);
             modulus = nextPowerOfTwo len;
             idx = a + (len div 4) * 2 - 1
         in breakPatterns_loop 3 data a len idx random modulus 0)
      else data)"

definition order2_func :: "('a \<Rightarrow> 'a \<Rightarrow> bool) \<Rightarrow> 'a list \<Rightarrow> int \<Rightarrow> int \<Rightarrow> nat \<Rightarrow> int \<times> int \<times> nat" where
  "order2_func lt data a b swaps =
     (if Less lt data b a then (b, a, swaps + 1) else (a, b, swaps))"

definition median_func :: "('a \<Rightarrow> 'a \<Rightarrow> bool) \<Rightarrow> 'a list \<Rightarrow> int \<Rightarrow> int \<Rightarrow> int \<Rightarrow> nat \<Rightarrow> int \<times> nat" where
  "median_func lt data a b c swaps =
     (let (a1, b1, s1) = order2_func lt data a b swaps;
          (b2, c2, s2) = order2_func lt data b1 c s1;
          (a3, b3, s3) = order2_func lt data a1 b2 s2
      in (b3, s3))"

definition medianAdjacent_func :: "('a \<Rightarrow> 'a \<Rightarrow> bool) \<Rightarrow> 'a list \<Rightarrow> int \<Rightarrow> nat \<Rightarrow> int \<times> nat" where
  "medianAdjacent_func lt data a swaps = median_func lt data (a - 1) a (a + 1) swaps"

definition choosePivot_func :: "('a \<Rightarrow> 'a \<Rightarrow> bool) \<Rightarrow> 'a list \<Rightarrow> int \<Rightarrow> int \<Rightarrow> int \<times> sortedHint" where
  "choosePivot_func lt data a b =
     (let l = b - a;
          i = a + l div 4 * 1;
          j = a + l div 4 * 2;
          k = a + l div 4 * 3;
          (j', swaps) =
            (if l \<ge> 8 then
               (let (i1, j1, k1, s1) =
                      (if l \<ge> 50 then
                         (let (i2, t1) = medianAdjacent_func lt data i 0;
                              (j2, t2) = medianAdjacent_func lt data j t1;
                              (k2, t3) = medianAdjacent_func lt data k t2
                          in (i2, j2, k2, t3))
                       else (i, j, k, 0))
                in median_func lt data i1 j1 k1 s1)
             else (j, 0))
      in if swaps = 0 then (j', increasingHint)
         else if swaps = 4 * 3 then (j', decreasingHint)
         else (j', unknownHint))"

function reverseRange_loop :: "'a list \<Rightarrow> int \<Rightarrow> int \<Rightarrow> 'a list" where
  "reverseRange_loop data i j =
     (if i < j then reverseRange_loop (Swap data i j) (i + 1) (j - 1) else data)"
  by pat_completeness auto
termination
  by (relation "measure (\<lambda>(data, i, j). nat (j - i))") auto

definition reverseRange_func :: "'a list \<Rightarrow> int \<Rightarrow> int \<Rightarrow> 'a list" where
  "reverseRange_func data a b = reverseRange_loop data a (b - 1)"

function pis_scan :: "('a \<Rightarrow> 'a \<Rightarrow> bool) \<Rightarrow> 'a list \<Rightarrow> int \<Rightarrow> int \<Rightarrow> int" where
  "pis_scan lt data b i =
     (if i < b \<and> \<not> Less lt data i (i - 1) then pis_scan lt data b (i + 1) else i)"
  by pat_completeness auto
termination
  by (relation "measure (\<lambda>(lt, data, b, i). nat (b - i))") auto

function shift_left :: "('a \<Rightarrow> 'a \<Rightarrow> bool) \<Rightarrow> 'a list \<Rightarrow> int \<Rightarrow> 'a list" where
  "shift_left lt data j =
     (if j \<ge> 1 then
        (if \<not> Less lt data j (j - 1) then data
         else shift_left lt (Swap data j (j - 1)) (j - 1))
      else data)"
  by pat_completeness auto
termination
  by (relation "measure (\<lambda>(lt, data, j). nat j)") auto

function shift_right :: "('a \<Rightarrow> 'a \<Rightarrow> bool) \<Rightarrow> 'a list \<Rightarrow> int \<Rightarrow> int \<Rightarrow> 'a list" where
  "shift_right lt data b j =
     (if j < b then
        (if \<not> Less lt data j (j - 1) then data
         else shift_right lt (Swap data j (j - 1)) b (j + 1))
      else data)"
  by pat_completeness auto
termination
  by (relation "measure (\<lambda>(lt, data, b, j). nat (b - j))") auto

definition pis_step :: "('a \<Rightarrow> 'a \<Rightarrow> bool) \<Rightarrow> 'a list \<Rightarrow> int \<Rightarrow> int \<Rightarrow> int \<Rightarrow> (bool \<times> 'a list) + ('a list \<times> int)" where
  "pis_step lt data a b i =
     (let i' = pis_scan lt data b i in
      if i' = b then Inl (True, data)
      else if b - a < 50 then Inl (False, data)
      else
        (let data1 = Swap data i' (i' - 1);
             data2 = (if i' - a \<ge> 2 then shift_left lt data1 (i' - 1) else data1);
             data3 = (if b - i' \<ge> 2 then shift_right lt data2 b (i' + 1) else data2)
         in Inr (data3, i')))"

fun pis_steps :: "nat \<Rightarrow> ('a \<Rightarrow> 'a \<Rightarrow> bool) \<Rightarrow> 'a list \<Rightarrow> int \<Rightarrow> int \<Rightarrow> int \<Rightarrow> bool \<times> 'a list" where
  "pis_steps 0 lt data a b i = (False, data)"
| "pis_steps (Suc n) lt data a b i =
     (case pis_step lt data a b i of
        Inl result \<Rightarrow> result
      | Inr (data', i') \<Rightarrow> pis_steps n lt data' a b i')"

definition partialInsertionSort_func :: "('a \<Rightarrow> 'a \<Rightarrow> bool) \<Rightarrow> 'a list \<Rightarrow> int \<Rightarrow> int \<Rightarrow> bool \<times> 'a list" where
  "partialInsertionSort_func lt data a b = pis_steps 5 lt data a b (a + 1)"

function scan_up :: "(int \<Rightarrow> bool) \<Rightarrow> int \<Rightarrow> int \<Rightarrow> int" where
  "scan_up P i j = (if i \<le> j \<and> P i then scan_up P (i + 1) j else i)"
  by pat_completeness auto
termination
  by (relation "measure (\<lambda>(P, i, j). nat (j + 1 - i))") auto

function scan_down :: "(int \<Rightarrow> bool) \<Rightarrow> int \<Rightarrow> int \<Rightarrow> int" where
  "scan_down P i j = (if i \<le> j \<and> P j then scan_down P i (j - 1) else j)"
  by pat_completeness auto
termination
  by (relation "measure (\<lambda>(P, i, j). nat (j + 1 - i))") auto

declare scan_up.simps [simp del] scan_down.simps [simp del]

lemma scan_up_ge: "i \<le> scan_up P i j"
  by (induction P i j rule: scan_up.induct) (subst scan_up.simps, auto)

lemma scan_up_le: "i \<le> j + 1 \<Longrightarrow> scan_up P i j \<le> j + 1"
  by (induction P i j rule: scan_up.induct) (subst scan_up.simps, auto)

lemma scan_down_le: "scan_down P i j \<le> j"
  by (induction P i j rule: scan_down.induct) (subst scan_down.simps, auto)

lemma scan_down_ge: "min j (i - 1) \<le> scan_down P i j"
  by (induction P i j rule: scan_down.induct) (subst scan_down.simps, auto)

function partitionEqual_loop :: "('a \<Rightarrow> 'a \<Rightarrow> bool) \<Rightarrow> 'a list \<Rightarrow> int \<Rightarrow> int \<Rightarrow> int \<Rightarrow> int \<times> 'a list" where
  "partitionEqual_loop lt data a i j =
     (let i1 = scan_up (\<lambda>i. \<not> Less lt data a i) i j;
          j1 = scan_down (\<lambda>j. Less lt data a j) i1 j
      in if i1 > j1 then (i1, data)
         else partitionEqual_loop lt (Swap data i1 j1) a (i1 + 1) (j1 - 1))"
  by pat_completeness auto
termination
proof (relation "measure (\<lambda>(lt, data, a, i, j). nat (j + 1 - i))", goal_cases)
  case 1
  then show ?case by simp
next
  case (2 lt data a i j i1 j1)
  have "i \<le> i1" using 2(1) scan_up_ge by simp
  moreover have "j1 \<le> j" using 2(2) scan_down_le by simp
  ultimately show ?case using 2(3) by simp
qed

definition partitionEqual_func :: "('a \<Rightarrow> 'a \<Rightarrow> bool) \<Rightarrow> 'a list \<Rightarrow> int \<Rightarrow> int \<Rightarrow> int \<Rightarrow> int \<times> 'a list" where
  "partitionEqual_func lt data a b pivot =
     partitionEqual_loop lt (Swap data a pivot) a (a + 1) (b - 1)"

function partition_loop :: "('a \<Rightarrow> 'a \<Rightarrow> bool) \<Rightarrow> 'a list \<Rightarrow> int \<Rightarrow> int \<Rightarrow> int \<Rightarrow> int \<times> 'a list" where
  "partition_loop lt data a i j =
     (let i1 = scan_up (\<lambda>i. Less lt data i a) i j;
          j1 = scan_down (\<lambda>j. \<not> Less lt data j a) i1 j
      in if i1 > j1 then (j1, data)
         else partition_loop lt (Swap data i1 j1) a (i1 + 1) (j1 - 1))"
  by pat_completeness auto
termination
proof (relation "measure (\<lambda>(lt, data, a, i, j). nat (j + 1 - i))", goal_cases)
  case 1
  then show ?case by simp
next
  case (2 lt data a i j i1 j1)
  have "i \<le> i1" using 2(1) scan_up_ge by simp
  moreover have "j1 \<le> j" using 2(2) scan_down_le by simp
  ultimately show ?case using 2(3) by simp
qed

definition partition_func :: "('a \<Rightarrow> 'a \<Rightarrow> bool) \<Rightarrow> 'a list \<Rightarrow> int \<Rightarrow> int \<Rightarrow> int \<Rightarrow> int \<times> bool \<times> 'a list" where
  "partition_func lt data a b pivot =
     (let data1 = Swap data a pivot;
          i = scan_up (\<lambda>i. Less lt data1 i a) (a + 1) (b - 1);
          j = scan_down (\<lambda>j. \<not> Less lt data1 j a) i (b - 1)
      in if i > j then (j, True, Swap data1 j a)
         else (case partition_loop lt (Swap data1 i j) a (i + 1) (j - 1) of
                 (j', data2) \<Rightarrow> (j', False, Swap data2 j' a)))"

declare partitionEqual_loop.simps [simp del] partition_loop.simps [simp del]

lemma partitionEqual_loop_gt: "i \<le> fst (partitionEqual_loop lt data a i j)"
proof (induction lt data a i j rule: partitionEqual_loop.induct)
  case (1 lt data a i j)
  let ?i1 = "scan_up (\<lambda>i. \<not> Less lt data a i) i j"
  let ?j1 = "scan_down (\<lambda>j. Less lt data a j) ?i1 j"
  have i1: "i \<le> ?i1" by (rule scan_up_ge)
  show ?case
  proof (cases "?i1 > ?j1")
    case True
    then show ?thesis using i1 by (subst partitionEqual_loop.simps) (simp add: Let_def)
  next
    case False
    then have "?i1 + 1 \<le> fst (partitionEqual_loop lt (Swap data ?i1 ?j1) a (?i1 + 1) (?j1 - 1))"
      using "1.IH" [OF refl refl] by simp
    then show ?thesis using i1 False by (subst partitionEqual_loop.simps) (simp add: Let_def)
  qed
qed

lemma partitionEqual_func_gt: "a < fst (partitionEqual_func lt data a b pivot)"
  using partitionEqual_loop_gt [of "a + 1" lt "Swap data a pivot" a "b - 1"]
  by (simp add: partitionEqual_func_def)

lemma partition_loop_bounds:
  "a + 1 \<le> i \<Longrightarrow> a \<le> j \<Longrightarrow>
     a \<le> fst (partition_loop lt data a i j) \<and> fst (partition_loop lt data a i j) \<le> j"
proof (induction lt data a i j rule: partition_loop.induct)
  case (1 lt data a i j)
  let ?i1 = "scan_up (\<lambda>i. Less lt data i a) i j"
  let ?j1 = "scan_down (\<lambda>j. \<not> Less lt data j a) ?i1 j"
  have i1: "i \<le> ?i1" by (rule scan_up_ge)
  have j1: "?j1 \<le> j" by (rule scan_down_le)
  have j1': "min j (?i1 - 1) \<le> ?j1" by (rule scan_down_ge)
  show ?case
  proof (cases "?i1 > ?j1")
    case True
    then have "fst (partition_loop lt data a i j) = ?j1"
      by (subst partition_loop.simps) (simp add: Let_def)
    then show ?thesis using i1 j1 j1' "1.prems" by auto
  next
    case False
    then have e: "partition_loop lt data a i j
        = partition_loop lt (Swap data ?i1 ?j1) a (?i1 + 1) (?j1 - 1)"
      by (subst partition_loop.simps) (simp add: Let_def)
    have "a + 1 \<le> ?i1 + 1" "a \<le> ?j1 - 1" using i1 "1.prems" False by auto
    from "1.IH" [OF refl refl _ this] False
    show ?thesis unfolding e using j1 by auto
  qed
qed

lemma partition_func_bounds:
  assumes "a < b"
  shows "a \<le> fst (partition_func lt data a b pivot)"
    and "fst (partition_func lt data a b pivot) < b"
proof -
  let ?d = "Swap data a pivot"
  let ?i = "scan_up (\<lambda>i. Less lt ?d i a) (a + 1) (b - 1)"
  let ?j = "scan_down (\<lambda>j. \<not> Less lt ?d j a) ?i (b - 1)"
  have i: "a + 1 \<le> ?i" by (rule scan_up_ge)
  have j: "?j \<le> b - 1" by (rule scan_down_le)
  have j': "min (b - 1) (?i - 1) \<le> ?j" by (rule scan_down_ge)
  have "a \<le> fst (partition_func lt data a b pivot) \<and> fst (partition_func lt data a b pivot) < b"
  proof (cases "?i > ?j")
    case True
    then have "fst (partition_func lt data a b pivot) = ?j"
      by (simp add: partition_func_def Let_def)
    then show ?thesis using i j j' assms by auto
  next
    case False
    then have e: "fst (partition_func lt data a b pivot)
        = fst (partition_loop lt (Swap ?d ?i ?j) a (?i + 1) (?j - 1))"
      by (simp add: partition_func_def Let_def split_beta)
    have "a + 1 \<le> ?i + 1" "a \<le> ?j - 1" using i False by auto
    from partition_loop_bounds [OF this, of lt "Swap ?d ?i ?j"]
    show ?thesis unfolding e using j by auto
  qed
  then show "a \<le> fst (partition_func lt data a b pivot)"
    and "fst (partition_func lt data a b pivot) < b" by auto
qed

lemma partitionEqual_func_mid:
  "(mid, data') = partitionEqual_func lt data a b pivot \<Longrightarrow> a < mid"
  using partitionEqual_func_gt [of a lt data b pivot] by (metis fst_conv)

lemma partition_func_mid:
  "(mid, ap, data') = partition_func lt data a b pivot \<Longrightarrow> a < b \<Longrightarrow> a \<le> mid \<and> mid < b"
  using partition_func_bounds [of a b lt data pivot] by (metis fst_conv)

text \<open>The part of one round of \<open>pdqsort_func\<close> before the partitioning.\<close>

definition pdq_prepare ::
  "('a \<Rightarrow> 'a \<Rightarrow> bool) \<Rightarrow> 'a list \<Rightarrow> int \<Rightarrow> int \<Rightarrow> int \<Rightarrow> bool \<Rightarrow> bool \<Rightarrow> bool \<times> 'a list \<times> int \<times> int" where
  "pdq_prepare lt data a b limit wasBalanced wasPartitioned =
     (let (data1, limit1) =
            (if \<not> wasBalanced then (breakPatterns_func data a b, limit - 1) else (data, limit));
          (pivot, hint) = choosePivot_func lt data1 a b;
          (data2, pivot2, hint2) =
            (if hint = decreasingHint
             then (reverseRange_func data1 a b, (b - 1) - (pivot - a), increasingHint)
             else (data1, pivot, hint));
          (isSorted, data3) =
            (if wasBalanced \<and> wasPartitioned \<and> hint2 = increasingHint
             then partialInsertionSort_func lt data2 a b
             else (False, data2))
      in (isSorted, data3, pivot2, limit1))"

function pdqsort_func ::
  "('a \<Rightarrow> 'a \<Rightarrow> bool) \<Rightarrow> 'a list \<Rightarrow> int \<Rightarrow> int \<Rightarrow> int \<Rightarrow> bool \<Rightarrow> bool \<Rightarrow> 'a list" where
  "pdqsort_func lt data a b limit wasBalanced wasPartitioned =
     (if b - a \<le> 12 then insertionSort_func lt data a b
      else if limit = 0 then heapSort_func lt data a b
      else
        (case pdq_prepare lt data a b limit wasBalanced wasPartitioned of
           (isSorted, data3, pivot, limit1) \<Rightarrow>
             if isSorted then data3
             else if a > 0 \<and> \<not> Less lt data3 (a - 1) pivot then
               (case partitionEqual_func lt data3 a b pivot of
                  (mid, data4) \<Rightarrow>
                    pdqsort_func lt data4 mid b limit1 wasBalanced wasPartitioned)
             else
               (case partition_func lt data3 a b pivot of
                  (mid, alreadyPartitioned, data4) \<Rightarrow>
                    if mid - a < b - mid then
                      pdqsort_func lt (pdqsort_func lt data4 a mid limit1 True True)
                        (mid + 1) b limit1 (mid - a \<ge> (b - a) div 8) alreadyPartitioned
                    else
                      pdqsort_func lt (pdqsort_func lt data4 (mid + 1) b limit1 True True)
                        a mid limit1 (b - mid \<ge> (b - a) div 8) alreadyPartitioned)))"
  by pat_completeness auto
termination
proof (relation "measure (\<lambda>(lt, data, a, b, limit, wb, wp). nat (b - a))", goal_cases)
  case 1
  show ?case by simp
next
  case prems: 2
  from prems show ?case by (auto dest: partitionEqual_func_mid)
next
  case prems: 3
  from prems show ?case by (auto dest: partition_func_mid)
next
  case prems: 4
  from prems show ?case by (auto dest: partition_func_mid)
next
  case prems: 5
  from prems show ?case by (auto dest: partition_func_mid)
next
  case prems: 6
  from prems show ?case by (auto dest: partition_func_mid)
qed

declare pdqsort_func.simps [simp del]

text \<open>\<open>sort.Slice(x, less)\<close>: the slice after the call.\<close>

definition sort_Slice :: "('a \<Rightarrow> 'a \<Rightarrow> bool) \<Rightarrow> 'a list \<Rightarrow> 'a list" where
  "sort_Slice lt x =
     (let len = int (List.length x);
          limit = int (bits_Len (nat len))
      in pdqsort_func lt x 0 len limit True True)"

declare insertion_inner.simps [simp del] insertion_outer.simps [simp del]
  siftDown_func.simps [simp del] heap_build.simps [simp del] heap_pop.simps [simp del]
  reverseRange_loop.simps [simp del] pis_scan.simps [simp del] shift_left.simps [simp del]
  shift_right.simps [simp del]

subsection \<open>The insertion sort of short slices keeps ties in place\<close>

text \<open>
  Inserting \<open>x\<close> from the right end: \<open>ins_rev lt x rp\<close> works on the reversed prefix
  \<open>rp\<close> and gives the reversed result.
\<close>

fun ins_rev :: "('a \<Rightarrow> 'a \<Rightarrow> bool) \<Rightarrow> 'a \<Rightarrow> 'a list \<Rightarrow> 'a list" where
  "ins_rev lt x [] = [x]"
| "ins_rev lt x (y # ys) = (if lt x y then y # ins_rev lt x ys else x # y # ys)"

lemma Swap_adjacent:
  "Swap (us @ y # x # vs) (int (length us) + 1) (int (length us)) = us @ x # y # vs"
  by (simp add: Swap_def nat_add_distrib list_update_append nth_append)

lemma Less_adjacent:
  "Less lt (us @ y # x # vs) (int (length us) + 1) (int (length us)) = lt x y"
  by (simp add: Less_def nat_add_distrib nth_append)

lemma insertion_inner_list:
  "insertion_inner lt (rev rp @ x # post) 0 (int (length rp)) = rev (ins_rev lt x rp) @ post"
proof (induction rp arbitrary: post)
  case Nil
  then show ?case by (subst insertion_inner.simps) simp
next
  case (Cons y ys)
  let ?us = "rev ys"
  have d: "rev (y # ys) @ x # post = ?us @ y # x # post" by simp
  have j: "int (length (y # ys)) = int (length ?us) + 1" by simp
  show ?case
  proof (cases "lt x y")
    case True
    have "insertion_inner lt (?us @ y # x # post) 0 (int (length ?us) + 1)
        = insertion_inner lt (?us @ x # y # post) 0 (int (length ?us))"
      using True Less_adjacent [of lt ?us y x post] Swap_adjacent [of ?us y x post]
      by (subst insertion_inner.simps) simp
    also have "\<dots> = rev (ins_rev lt x ys) @ y # post"
      using Cons.IH [of "y # post"] by simp
    finally show ?thesis unfolding d j using True by simp
  next
    case False
    have "insertion_inner lt (?us @ y # x # post) 0 (int (length ?us) + 1) = ?us @ y # x # post"
      using False Less_adjacent [of lt ?us y x post]
      by (subst insertion_inner.simps) simp
    then show ?thesis unfolding d j using False by simp
  qed
qed

lemma insertion_outer_list:
  "insertion_outer lt (rev rp @ rest) 0 (int (length rp + length rest)) (int (length rp))
     = rev (foldl (\<lambda>acc x. ins_rev lt x acc) rp rest)"
proof (induction rest arbitrary: rp)
  case Nil
  then show ?case by (subst insertion_outer.simps) simp
next
  case (Cons x rest)
  have len: "length (ins_rev lt x rp) = Suc (length rp)" for rp
    by (induction rp) auto
  have "insertion_outer lt (rev rp @ x # rest) 0 (int (length rp + length (x # rest))) (int (length rp))
      = insertion_outer lt (rev (ins_rev lt x rp) @ rest) 0
          (int (length rp + length (x # rest))) (int (length rp) + 1)"
    by (subst insertion_outer.simps) (simp add: insertion_inner_list)
  also have "\<dots> = insertion_outer lt (rev (ins_rev lt x rp) @ rest) 0
          (int (length (ins_rev lt x rp) + length rest)) (int (length (ins_rev lt x rp)))"
    by (simp add: len add.commute)
  also have "\<dots> = rev (foldl (\<lambda>acc x. ins_rev lt x acc) (ins_rev lt x rp) rest)"
    by (rule Cons.IH)
  finally show ?case by simp
qed

lemma insertionSort_func_list:
  "insertionSort_func lt data 0 (int (length data)) = rev (foldl (\<lambda>acc x. ins_rev lt x acc) [] data)"
proof (cases data)
  case Nil
  then show ?thesis
    by (simp add: insertionSort_func_def) (subst insertion_outer.simps, simp)
next
  case (Cons x rest)
  have "insertionSort_func lt (x # rest) 0 (int (length (x # rest)))
      = insertion_outer lt (rev [x] @ rest) 0 (int (length [x] + length rest)) (int (length [x]))"
    by (simp add: insertionSort_func_def)
  also have "\<dots> = rev (foldl (\<lambda>acc x. ins_rev lt x acc) [x] rest)"
    by (rule insertion_outer_list)
  finally show ?thesis using Cons by simp
qed

lemma sort_Slice_short:
  "length x \<le> 12 \<Longrightarrow> sort_Slice lt x = rev (foldl (\<lambda>acc x. ins_rev lt x acc) [] x)"
  by (simp add: sort_Slice_def Let_def pdqsort_func.simps [of lt x 0] insertionSort_func_list)








declare bits_Len.simps [simp del]

subsection \<open>Thirteen elements: a tie moves ahead\<close>


subsection \<open>The order in which Load returns the rules\<close>













section \<open>Start and reload\<close>

text \<open>
  \<open>New\<close> on a kernel \<open>k\<close>, with \<open>outcomes\<close> for the batches to come, and the part of
  \<open>Start\<close> that touches the filter: \<open>Setup\<close>, then \<open>applyRules\<close>.
\<close>

definition New :: "Config \<Rightarrow> kernel \<Rightarrow> bool list \<Rightarrow> Filter" where
  "New cfg k outcomes = \<lparr>config = cfg, dns = NewResolver, nft = NewManager k outcomes\<rparr>"

definition Start :: "golib \<Rightarrow> env \<Rightarrow> Filter \<Rightarrow> (filter_error + unit) \<times> Filter" where
  "Start L e f =
     (case Setup (nft f) of
        (Inl err, m) \<Rightarrow> (Inl (SetupFailed err), f\<lparr>nft := m\<rparr>)
      | (Inr u, m) \<Rightarrow> applyRules L e (f\<lparr>nft := m\<rparr>))"

definition icmp_config :: Config where
  "icmp_config =
     \<lparr>Version = ''1.0'',
      Rules = [\<lparr>rule_Name = ascii ''allow-icmp'', rule_Action = ''allow'', Order = 100,
                Egress = \<lparr>egress_Protocols = [''icmp''], Domains = [], egress_IPs = [],
                           egress_Ports = []\<rparr>\<rparr>]\<rparr>"

definition dns_config :: Config where
  "dns_config =
     \<lparr>Version = ''2.0'',
      Rules = [\<lparr>rule_Name = ascii ''allow-dns'', rule_Action = ''allow'', Order = 100,
                Egress = \<lparr>egress_Protocols = [''udp''], Domains = [], egress_IPs = [''8.8.8.8''],
                           egress_Ports = [''53'']\<rparr>\<rparr>]\<rparr>"

text \<open>The filter running the ICMP configuration, with the outcomes of the batches to come.\<close>

definition running :: "bool list \<Rightarrow> Filter" where
  "running outcomes =
     snd (Start example_lib example_dns (New icmp_config empty_kernel (True # True # outcomes)))"

lemma sort_Slice_single: "sort_Slice lt [x] = [x]"
  by (simp add: sort_Slice_short)

lemmas reload_defs =
  reloadConfig_def Load_def Validate_def Rule_Validate_def ActionAllow_def ActionDeny_def
  ProtocolTCP_def ProtocolUDP_def ProtocolICMP_def sort_Slice_single applyRules_def Start_def
  New_def running_def icmp_config_def dns_config_def

lemma running_state:
  "chain_rules (kern (conn (nft (running outcomes))))
     = [[Verdict VerdictDrop], [Meta 1, Cmp 1 [1], Verdict VerdictAccept]]"
  "k_table (kern (conn (nft (running outcomes))))"
  "config (running outcomes) = icmp_config"
  by (simp_all add: reload_defs filter_defs nft_defs)

text \<open>
  Claim C2 fails as stated. The filter runs the ICMP configuration and a valid new
  configuration is reloaded. When the batch of the new rule is refused, the reload reports
  the error and the chain is left with the drop rule alone: the rule that allowed ICMP is
  gone. When the batch of \<open>Setup\<close> is refused, the reload reports the error and the table
  is gone altogether, the drop rule with it.
\<close>

theorem reload_not_atomic:
  "chain_rules (kern (conn (nft (running [True, True, False]))))
     = [[Verdict VerdictDrop], [Meta 1, Cmp 1 [1], Verdict VerdictAccept]]
   \<and> fst (reloadConfig sort_Slice example_lib example_dns (Parsed dns_config)
          (running [True, True, False]))
       = Inl (ApplyFailed (ascii ''allow-dns'') FlushFailed)
   \<and> chain_rules (kern (conn (nft (snd (reloadConfig sort_Slice example_lib example_dns
          (Parsed dns_config) (running [True, True, False]))))))
       = [[Verdict VerdictDrop]]
   \<and> k_table (kern (conn (nft (running [True, False]))))
   \<and> fst (reloadConfig sort_Slice example_lib example_dns (Parsed dns_config)
          (running [True, False]))
       = Inl (SetupFailed FlushFailed)
   \<and> k_table (kern (conn (nft (snd (reloadConfig sort_Slice example_lib example_dns
          (Parsed dns_config) (running [True, False])))))) = False"
proof (intro conjI)
  show "chain_rules (kern (conn (nft (running [True, True, False]))))
     = [[Verdict VerdictDrop], [Meta 1, Cmp 1 [1], Verdict VerdictAccept]]"
    by (rule running_state)
  show "fst (reloadConfig sort_Slice example_lib example_dns (Parsed dns_config)
          (running [True, True, False]))
       = Inl (ApplyFailed (ascii ''allow-dns'') FlushFailed)"
    by (simp add: reload_defs filter_defs nft_defs)
  show "chain_rules (kern (conn (nft (snd (reloadConfig sort_Slice example_lib example_dns
          (Parsed dns_config) (running [True, True, False]))))))
       = [[Verdict VerdictDrop]]"
    by (simp add: reload_defs filter_defs nft_defs)
  show "k_table (kern (conn (nft (running [True, False]))))"
    by (rule running_state)
  show "fst (reloadConfig sort_Slice example_lib example_dns (Parsed dns_config)
          (running [True, False]))
       = Inl (SetupFailed FlushFailed)"
    by (simp add: reload_defs filter_defs nft_defs)
  show "k_table (kern (conn (nft (snd (reloadConfig sort_Slice example_lib example_dns
          (Parsed dns_config) (running [True, False])))))) = False"
    by (simp add: reload_defs filter_defs nft_defs)
qed

lemma Load_fails:
  "file = Unreadable \<or> file = Malformed \<or> (\<exists>c. file = Parsed c \<and> Validate c \<noteq> Inr ())
     \<Longrightarrow> \<exists>err. Load srt file = Inl err"
  by (cases "file") (auto simp: Load_def split: sum.splits)

lemma apply_domains_error:
  "fst (apply_domains L e rule ds h) = Inl err \<Longrightarrow> \<exists>name x. err = ApplyFailed name x"
  by (induction ds arbitrary: h)
     (auto simp: nft_AddRule_def split: prod.splits sum.splits if_splits)

lemma applyRule_error:
  "fst (applyRule L e rule g) = Inl err \<Longrightarrow> \<exists>name x. err = ApplyFailed name x"
  using apply_domains_error [of L e rule "Domains (Egress rule)" g err]
  by (auto simp: applyRule_def nft_AddRule_def split: prod.splits sum.splits if_splits)

lemma apply_rule_list_error:
  "fst (apply_rule_list L e rules g) = Inl err \<Longrightarrow> \<exists>name x. err = ApplyFailed name x"
proof (induction rules arbitrary: g)
  case Nil
  then show ?case by simp
next
  case (Cons rule rules)
  obtain r g' where a: "applyRule L e rule g = (r, g')" by (cases "applyRule L e rule g")
  show ?case
  proof (cases r)
    case (Inl x)
    then have "fst (applyRule L e rule g) = Inl err" using a Cons.prems by simp
    then show ?thesis by (rule applyRule_error)
  next
    case (Inr u)
    then have "fst (apply_rule_list L e rules g') = Inl err" using a Cons.prems by simp
    then show ?thesis by (rule Cons.IH)
  qed
qed

lemma Cleanup_failed:
  assumes "fst (Cleanup m) = Inl x"
  shows "kern (conn (snd (Cleanup m))) = kern (conn m)"
    and "sets (snd (Cleanup m)) = sets m"
    and "table (snd (Cleanup m)) = table m" and "chain (snd (Cleanup m)) = chain m"
  using assms
  by (auto simp: Cleanup_def Flush_def Let_def send_def
      split: if_splits option.splits prod.splits list.splits)

lemma reloadConfig_CleanupFailed:
  assumes "fst (reloadConfig srt L e file f) = Inl (CleanupFailed x)"
  shows "fst (Cleanup (nft f)) = Inl x
     \<and> snd (reloadConfig srt L e file f) = f\<lparr>nft := snd (Cleanup (nft f))\<rparr>"
proof (cases "Load srt file")
  case (Inl err)
  then show ?thesis using assms by (simp add: reloadConfig_def)
next
  case (Inr newConfig)
  show ?thesis
  proof (cases "Validate newConfig")
    case (Inl err)
    then show ?thesis using assms Inr by (simp add: reloadConfig_def)
  next
    case v: (Inr u)
    obtain r1 m1 where c: "Cleanup (nft f) = (r1, m1)" by (cases "Cleanup (nft f)")
    show ?thesis
    proof (cases r1)
      case (Inl y)
      then show ?thesis using assms Inr v c by (simp add: reloadConfig_def)
    next
      case u1: (Inr u1)
      obtain r2 m2 where s: "Setup m1 = (r2, m2)" by (cases "Setup m1")
      show ?thesis
      proof (cases r2)
        case (Inl y)
        then show ?thesis using assms Inr v c u1 s by (simp add: reloadConfig_def)
      next
        case u2: (Inr u2)
        let ?g = "f\<lparr>nft := m2, config := newConfig\<rparr>"
        have "fst (apply_rule_list L e (Rules newConfig) ?g) = Inl (CleanupFailed x)"
          using assms Inr v c u1 s u2 by (simp add: reloadConfig_def applyRules_def)
        from apply_rule_list_error [OF this] show ?thesis by blast
      qed
    qed
  qed
qed

text \<open>
  Claim C2 as amended. A reload whose file cannot be read, does not parse or holds a
  configuration that fails validation (an empty version, for one) fails and leaves the
  whole filter as it was: the active configuration, the resolver, the manager and the
  kernel state behind it. Whenever a reload reports a load or validation failure, the
  filter is unchanged; and whenever it reports that \<open>Cleanup\<close> failed, the kernel state,
  the active configuration, the resolver and the sets the manager knows are unchanged.
  (A reload that fails in \<open>Setup\<close> or while the new rules are applied is not covered.)
\<close>

theorem reload_invalid_config_keeps_state:
  "(file = Unreadable \<or> file = Malformed \<or> (\<exists>c. file = Parsed c \<and> Validate c \<noteq> Inr ())
      \<longrightarrow> (\<exists>err. reloadConfig srt L e file f = (Inl (LoadFailed err), f)))
   \<and> (fst (reloadConfig srt L e file f) = Inl (LoadFailed err)
        \<or> fst (reloadConfig srt L e file f) = Inl (ValidationFailed err)
      \<longrightarrow> snd (reloadConfig srt L e file f) = f)
   \<and> (Version c = [] \<longrightarrow>
        reloadConfig srt L e (Parsed c) f = (Inl (LoadFailed VersionRequired), f))
   \<and> (fst (reloadConfig srt L e file f) = Inl (CleanupFailed x)
      \<longrightarrow> kern (conn (nft (snd (reloadConfig srt L e file f)))) = kern (conn (nft f))
          \<and> config (snd (reloadConfig srt L e file f)) = config f
          \<and> dns (snd (reloadConfig srt L e file f)) = dns f
          \<and> sets (nft (snd (reloadConfig srt L e file f))) = sets (nft f))"
proof (intro conjI impI)
  assume "file = Unreadable \<or> file = Malformed \<or> (\<exists>c. file = Parsed c \<and> Validate c \<noteq> Inr ())"
  then obtain err where "Load srt file = Inl err" using Load_fails by blast
  then have "reloadConfig srt L e file f = (Inl (LoadFailed err), f)"
    by (simp add: reloadConfig_def)
  then show "\<exists>err. reloadConfig srt L e file f = (Inl (LoadFailed err), f)" ..
next
  assume a: "fst (reloadConfig srt L e file f) = Inl (LoadFailed err)
        \<or> fst (reloadConfig srt L e file f) = Inl (ValidationFailed err)"
  show "snd (reloadConfig srt L e file f) = f"
  proof (cases "Load srt file")
    case (Inl x)
    then show ?thesis by (simp add: reloadConfig_def)
  next
    case (Inr newConfig)
    show ?thesis
    proof (cases "Validate newConfig")
      case (Inl x)
      then show ?thesis using Inr by (simp add: reloadConfig_def)
    next
      case v: (Inr u)
      obtain r1 m1 where c: "Cleanup (nft f) = (r1, m1)" by (cases "Cleanup (nft f)")
      obtain r2 m2 where s: "Setup m1 = (r2, m2)" by (cases "Setup m1")
      let ?g = "f\<lparr>nft := m2, config := newConfig\<rparr>"
      have d: "(\<exists>x. fst (reloadConfig srt L e file f) = Inl (CleanupFailed x))
          \<or> (\<exists>x. fst (reloadConfig srt L e file f) = Inl (SetupFailed x))
          \<or> fst (reloadConfig srt L e file f) = fst (apply_rule_list L e (Rules newConfig) ?g)"
        using Inr v c s
        by (cases r1; cases r2) (simp_all add: reloadConfig_def applyRules_def)
      have n: "fst (reloadConfig srt L e file f) \<noteq> Inl err'"
        if "\<And>name x. err' \<noteq> ApplyFailed name x"
          and "\<And>x. err' \<noteq> CleanupFailed x" and "\<And>x. err' \<noteq> SetupFailed x" for err'
      proof
        assume eq: "fst (reloadConfig srt L e file f) = Inl err'"
        from d show False
        proof (elim disjE exE)
          fix x assume "fst (reloadConfig srt L e file f) = Inl (CleanupFailed x)"
          with eq that(2) [of x] show False by simp
        next
          fix x assume "fst (reloadConfig srt L e file f) = Inl (SetupFailed x)"
          with eq that(3) [of x] show False by simp
        next
          assume "fst (reloadConfig srt L e file f) = fst (apply_rule_list L e (Rules newConfig) ?g)"
          with eq have "fst (apply_rule_list L e (Rules newConfig) ?g) = Inl err'" by simp
          from apply_rule_list_error [OF this] that(1) show False by blast
        qed
      qed
      have "fst (reloadConfig srt L e file f) \<noteq> Inl (LoadFailed err)
          \<and> fst (reloadConfig srt L e file f) \<noteq> Inl (ValidationFailed err)"
        by (intro conjI n) simp_all
      with a show ?thesis by blast
    qed
  qed
next
  assume "Version c = []"
  then show "reloadConfig srt L e (Parsed c) f = (Inl (LoadFailed VersionRequired), f)"
    by (simp add: reloadConfig_def Load_def Validate_def)
next
  assume a: "fst (reloadConfig srt L e file f) = Inl (CleanupFailed x)"
  note r = reloadConfig_CleanupFailed [OF a]
  from r have c: "fst (Cleanup (nft f)) = Inl x"
    and s: "snd (reloadConfig srt L e file f) = f\<lparr>nft := snd (Cleanup (nft f))\<rparr>" by simp_all
  show "kern (conn (nft (snd (reloadConfig srt L e file f)))) = kern (conn (nft f))"
    unfolding s using Cleanup_failed(1) [OF c] by simp
  show "config (snd (reloadConfig srt L e file f)) = config f" unfolding s by simp
  show "dns (snd (reloadConfig srt L e file f)) = dns f" unfolding s by simp
  show "sets (nft (snd (reloadConfig srt L e file f))) = sets (nft f)"
    unfolding s using Cleanup_failed(2) [OF c] by simp
qed

definition no_version_config :: Config where
  "no_version_config = dns_config\<lparr>Version := []\<rparr>"

theorem reload_invalid_config_keeps_state_witness:
  "Version no_version_config = []
   \<and> reloadConfig sort_Slice example_lib example_dns (Parsed no_version_config) (running [])
       = (Inl (LoadFailed VersionRequired), running [])
   \<and> chain_rules (kern (conn (nft (snd (reloadConfig sort_Slice example_lib example_dns
          (Parsed no_version_config) (running []))))))
       = [[Verdict VerdictDrop], [Meta 1, Cmp 1 [1], Verdict VerdictAccept]]
   \<and> fst (reloadConfig sort_Slice example_lib example_dns (Parsed dns_config) (running [False]))
       = Inl (CleanupFailed FlushFailed)
   \<and> chain_rules (kern (conn (nft (snd (reloadConfig sort_Slice example_lib example_dns
          (Parsed dns_config) (running [False]))))))
       = [[Verdict VerdictDrop], [Meta 1, Cmp 1 [1], Verdict VerdictAccept]]"
proof -
  have v: "Version no_version_config = []" by (simp add: no_version_config_def)
  have r: "reloadConfig sort_Slice example_lib example_dns (Parsed no_version_config) (running [])
       = (Inl (LoadFailed VersionRequired), running [])"
    using reload_invalid_config_keeps_state
      [of "Parsed no_version_config" sort_Slice example_lib example_dns "running []"
          VersionRequired no_version_config] v
    by blast
  have c: "fst (reloadConfig sort_Slice example_lib example_dns (Parsed dns_config)
              (running [False])) = Inl (CleanupFailed FlushFailed)"
    by (simp add: reload_defs filter_defs nft_defs)
  have k: "kern (conn (nft (snd (reloadConfig sort_Slice example_lib example_dns
          (Parsed dns_config) (running [False]))))) = kern (conn (nft (running [False])))"
    using reload_invalid_config_keeps_state
      [of "Parsed dns_config" sort_Slice example_lib example_dns "running [False]"
          VersionRequired no_version_config FlushFailed] c
    by blast
  show ?thesis using v r c running_state(1) [of "[]"] running_state(1) [of "[False]"]
    unfolding k by simp
qed

subsection \<open>Where the drop rule of Setup stands\<close>

lemma AddRules_chain:
  assumes "ready m" and "list_all (accepted L) rules"
  shows "chain_rules (kern (conn (snd (AddRules L rules m))))
     = chain_rules (kern (conn m)) @ map (rule_exprs L) rules"
  using AddRules_ready [OF assms] by (simp add: chain_rules_foldl)

lemma drop_rule_stays_first:
  assumes "list_all (accepted L) rules"
  shows "chain_rules (kern (conn (snd (AddRules L rules fresh_manager))))
     = [Verdict VerdictDrop] # map (rule_exprs L) rules"
  using AddRules_chain [OF fresh_manager_ready assms]
  by (simp add: chain_rules_def fresh_manager_chain)

lemma buildRuleExpressions_last:
  "last (buildRuleExpressions L rule ipSet)
     = Verdict (if Action rule = ''allow'' then VerdictAccept else VerdictDrop)"
  by (simp add: buildRuleExpressions_def Let_def)

lemma last_rule_after_Setup:
  assumes "rules \<noteq> []" and "list_all (accepted L) rules"
  shows "last (chain_rules (kern (conn (snd (AddRules L rules fresh_manager)))))
       = rule_exprs L (last rules)"
  unfolding drop_rule_stays_first [OF assms(2)] using assms(1) by (simp add: last_map)

end
